theory Spec2Isabelle
  imports Main "HOL-Library.Sublist"
begin

section \<open>The migration script \<^verbatim>\<open>scripts/convert-to-retry.py\<close>\<close>

text \<open>
  The script reads every \<^verbatim>\<open>*.ts\<close> entry of the directory \<^verbatim>\<open>services/supabase\<close>, adds an
  import line to the files that lack the token \<^verbatim>\<open>withRetry\<close>, counts the occurrences of
  \<^verbatim>\<open>Promise.race\<close> and writes a file back when its text changed.

  A text is a \<open>string\<close>: the value that \<^verbatim>\<open>f.read()\<close> returns and \<^verbatim>\<open>f.write\<close> takes. The
  decoding, encoding and newline translation of Python's text mode lie below this model;
  every pattern of the script is ASCII. Python's \<^verbatim>\<open>sub in s\<close> on strings is
  \<^const>\<open>sublist\<close>, which is executable.
\<close>

subsection \<open>Regular-expression operations on literal patterns\<close>

text \<open>
  Both regular expressions of the script match one literal text only:
  \<^item> \<^verbatim>\<open>r"(import { supabase } from '@/lib/supabase/client';)"\<close>: the braces are not a
    repetition (no digits follow \<^verbatim>\<open>{\<close>), so they stand for themselves, and the parentheses
    make the whole match group 1;
  \<^item> \<^verbatim>\<open>r'Promise\.race'\<close>: the escaped dot is a literal dot.

  A replacement template is a list of items: a reference to group 1 (\<^verbatim>\<open>\1\<close>) or literal
  characters (where \<^verbatim>\<open>\n\<close> is already the newline character).
\<close>

datatype titem = Group1 | Chars string

fun expand :: "titem list \<Rightarrow> string \<Rightarrow> string" where
  "expand [] g = []"
| "expand (Group1 # ts) g = g @ expand ts g"
| "expand (Chars cs # ts) g = cs @ expand ts g"

text \<open>
  \<^verbatim>\<open>re.sub(p, t, s)\<close> for a literal \<open>p\<close>: scan from the left, replace each match by the
  expanded template and go on behind the match. An empty pattern matches at every
  position, also at the end.
\<close>

fun re_sub :: "string \<Rightarrow> titem list \<Rightarrow> string \<Rightarrow> string" where
  "re_sub p t [] = (if p = [] then expand t [] else [])"
| "re_sub p t (c # cs) =
     (if p = [] then expand t [] @ c # re_sub p t cs
      else if prefix p (c # cs) then expand t p @ re_sub p t (drop (length p - 1) cs)
      else c # re_sub p t cs)"

text \<open>\<^verbatim>\<open>len(re.findall(p, s))\<close> for a literal \<open>p\<close>: the matches of the same scan, counted.\<close>

fun findall_count :: "string \<Rightarrow> string \<Rightarrow> nat" where
  "findall_count p [] = (if p = [] then 1 else 0)"
| "findall_count p (c # cs) =
     (if p = [] then Suc (findall_count p cs)
      else if prefix p (c # cs) then Suc (findall_count p (drop (length p - 1) cs))
      else findall_count p cs)"

subsection \<open>The constants of the script\<close>

definition marker :: string where
  "marker = ''withRetry''"

definition import_pattern :: string where
  "import_pattern = ''import { supabase } from '@/lib/supabase/client';''"

definition retry_import :: string where
  "retry_import = ''import { withRetry } from '@/lib/supabase/retry';''"

definition replacement :: "titem list" where
  "replacement = [Group1, Chars (CHR 0x0A # retry_import)]"

definition promise_race :: string where
  "promise_race = ''Promise.race''"

definition services_dir :: string where
  "services_dir = ''services/supabase''"

subsection \<open>The file system, the console and the faults\<close>

text \<open>
  A path names a directory (with the names of its entries, in the order the system lists
  them), a text file (its text, and whether it may be written) or an entry that cannot be
  read as text (no permission, or bytes that are not UTF-8). Opening a directory or an
  absent path for reading raises as well. The script handles no exception, so a fault
  ends the run.

  The world also records what the run did: the completed reads and writes, and the lines
  printed. A printed line is kept as a value of \<open>msg\<close>:
  \<^item> \<open>Converting p\<close>: \<^verbatim>\<open>Converting: p\<close>
  \<^item> \<open>AddedImport\<close>: the line \<^verbatim>\<open>Added withRetry import\<close> with its check mark
  \<^item> \<open>FoundPatterns n\<close>: \<^verbatim>\<open>Found n Promise.race patterns\<close>
  \<^item> \<open>ManualRecommended\<close>: \<^verbatim>\<open>Manual conversion recommended\<close>
  \<^item> \<open>ErrorNotFound p\<close>: \<^verbatim>\<open>Error: p not found\<close>
  \<^item> \<open>FoundFiles n\<close>: \<^verbatim>\<open>Found n service files\<close>
  \<^item> \<open>Updated n\<close>: \<^verbatim>\<open>Updated n files\<close> with its check mark
  \<^item> \<open>NextSteps\<close>, \<open>SeeExamples\<close>: the two closing lines.
\<close>

type_synonym path = string

datatype node = Dir "string list" | File string bool | Opaque

datatype fault = ReadFault path | WriteFault path

datatype 'a result = Ok 'a | Raise fault

datatype msg =
    Converting path
  | AddedImport
  | FoundPatterns nat
  | ManualRecommended
  | ErrorNotFound path
  | FoundFiles nat
  | Updated nat
  | NextSteps
  | SeeExamples

datatype io_event = Read path | Write path string

record world =
  nodes :: "path \<rightharpoonup> node"
  io :: "io_event list"
  out :: "msg list"

definition print :: "msg \<Rightarrow> world \<Rightarrow> world" where
  "print m w = w\<lparr>out := out w @ [m]\<rparr>"

text \<open>\<^verbatim>\<open>with open(p, 'r', encoding='utf-8') as f: f.read()\<close>\<close>

definition read_text :: "path \<Rightarrow> world \<Rightarrow> string result \<times> world" where
  "read_text p w =
     (case nodes w p of
        Some (File t wr) \<Rightarrow> (Ok t, w\<lparr>io := io w @ [Read p]\<rparr>)
      | _ \<Rightarrow> (Raise (ReadFault p), w))"

text \<open>
  \<^verbatim>\<open>with open(p, 'w', encoding='utf-8') as f: f.write(s)\<close>. The script writes only a
  path it has just read, so the path is a text file here; a file that may not be written
  raises and keeps its text.
\<close>

definition write_text :: "path \<Rightarrow> string \<Rightarrow> world \<Rightarrow> unit result \<times> world" where
  "write_text p s w =
     (case nodes w p of
        Some (File t True) \<Rightarrow>
          (Ok (), w\<lparr>nodes := (nodes w)(p \<mapsto> File s True), io := io w @ [Write p s]\<rparr>)
      | _ \<Rightarrow> (Raise (WriteFault p), w))"

text \<open>\<^verbatim>\<open>Path.exists\<close>: any kind of entry counts.\<close>

definition exists :: "path \<Rightarrow> world \<Rightarrow> bool" where
  "exists p w = (nodes w p \<noteq> None)"

text \<open>
  \<^verbatim>\<open>list(d.glob('*.ts'))\<close>: the entries of \<open>d\<close> itself whose name ends in \<^verbatim>\<open>.ts\<close>, each joined
  to \<open>d\<close>; entries of any kind match, and nothing is listed below a path that is not a
  directory.
\<close>

definition glob_ts :: "path \<Rightarrow> world \<Rightarrow> path list" where
  "glob_ts d w =
     (case nodes w d of
        Some (Dir names) \<Rightarrow> map (\<lambda>n. d @ ''/'' @ n) (filter (suffix ''.ts'') names)
      | _ \<Rightarrow> [])"

subsection \<open>\<^verbatim>\<open>convert_file\<close>\<close>

definition convert_file :: "path \<Rightarrow> world \<Rightarrow> bool result \<times> world" where
  "convert_file file_path w =
     (case read_text file_path (print (Converting file_path) w) of
        (Raise e, w1) \<Rightarrow> (Raise e, w1)
      | (Ok original_content, w1) \<Rightarrow>
          (let (content, w2) =
                 (if \<not> sublist marker original_content
                  then (re_sub import_pattern replacement original_content,
                        print AddedImport w1)
                  else (original_content, w1));
               promise_race_count = findall_count promise_race content;
               w3 = (if promise_race_count > 0
                     then print ManualRecommended
                            (print (FoundPatterns promise_race_count) w2)
                     else w2)
           in if content \<noteq> original_content
              then (case write_text file_path content w3 of
                      (Raise e, w4) \<Rightarrow> (Raise e, w4)
                    | (Ok u, w4) \<Rightarrow> (Ok True, w4))
              else (Ok False, w3)))"

subsection \<open>\<^verbatim>\<open>main\<close>\<close>

text \<open>The loop over \<^verbatim>\<open>ts_files\<close>, with the running \<^verbatim>\<open>converted_count\<close>.\<close>

fun convert_each :: "path list \<Rightarrow> nat \<Rightarrow> world \<Rightarrow> nat result \<times> world" where
  "convert_each [] converted_count w = (Ok converted_count, w)"
| "convert_each (ts_file # rest) converted_count w =
     (case convert_file ts_file w of
        (Raise e, w1) \<Rightarrow> (Raise e, w1)
      | (Ok modified, w1) \<Rightarrow>
          convert_each rest (if modified then converted_count + 1 else converted_count) w1)"

text \<open>
  How a run ends: \<open>Returned\<close> is the normal end of \<^verbatim>\<open>main\<close>, \<open>SysExit n\<close> is
  \<^verbatim>\<open>sys.exit(n)\<close>, \<open>Uncaught e\<close> an exception that nothing handles; the interpreter turns
  them into the exit status of the process.
\<close>

datatype outcome = Returned | SysExit int | Uncaught fault

fun exit_status :: "outcome \<Rightarrow> int" where
  "exit_status Returned = 0"
| "exit_status (SysExit n) = n"
| "exit_status (Uncaught e) = 1"

definition main :: "world \<Rightarrow> outcome \<times> world" where
  "main w =
     (if \<not> exists services_dir w
      then (SysExit 1, print (ErrorNotFound services_dir) w)
      else
        (let ts_files = glob_ts services_dir w;
             w1 = print (FoundFiles (length ts_files)) w
         in case convert_each ts_files 0 w1 of
              (Raise e, w2) \<Rightarrow> (Uncaught e, w2)
            | (Ok converted_count, w2) \<Rightarrow>
                (Returned,
                 print SeeExamples (print NextSteps (print (Updated converted_count) w2)))))"

section \<open>Notions used in the statements\<close>

subsection \<open>Occurrences of a text in a text\<close>

text \<open>
  The positions at which \<open>p\<close> occurs in \<open>s\<close>, in increasing order, and their number
  computed by recursion over \<open>s\<close>.
\<close>

definition occurrences :: "string \<Rightarrow> string \<Rightarrow> nat list" where
  "occurrences p s = filter (\<lambda>i. prefix p (drop i s)) [0..<Suc (length s)]"

fun occ_count :: "string \<Rightarrow> string \<Rightarrow> nat" where
  "occ_count p [] = (if p = [] then 1 else 0)"
| "occ_count p (c # cs) = (if prefix p (c # cs) then 1 else 0) + occ_count p cs"

text \<open>
  A text is unbordered when none of its proper non-empty prefixes is also a suffix of it:
  two occurrences of such a text never overlap.
\<close>

definition unbordered :: "string \<Rightarrow> bool" where
  "unbordered p = list_all (\<lambda>k. take k p \<noteq> drop (length p - k) p) [1..<length p]"

text \<open>Python's \<^verbatim>\<open>sep.join(segs)\<close>.\<close>

fun join :: "string \<Rightarrow> string list \<Rightarrow> string" where
  "join sep [] = []"
| "join sep [s] = s"
| "join sep (s # t # ss) = s @ sep @ join sep (t # ss)"

subsection \<open>What \<^verbatim>\<open>convert_file\<close> does to one text\<close>

text \<open>The characters that the replacement template puts behind group 1.\<close>

definition inserted :: string where
  "inserted = CHR 0x0A # retry_import"

text \<open>
  The value of \<^verbatim>\<open>content\<close> at the end of \<^verbatim>\<open>convert_file\<close>, as a function of the text
  read, and the lines the call prints for it.
\<close>

definition new_content :: "string \<Rightarrow> string" where
  "new_content c =
     (if \<not> sublist marker c then re_sub import_pattern replacement c else c)"

definition file_msgs :: "path \<Rightarrow> string \<Rightarrow> msg list" where
  "file_msgs p c =
     Converting p #
     (if \<not> sublist marker c then [AddedImport] else []) @
     (if findall_count promise_race (new_content c) > 0
      then [FoundPatterns (findall_count promise_race (new_content c)), ManualRecommended]
      else [])"

definition text_of :: "world \<Rightarrow> path \<Rightarrow> string" where
  "text_of w p = (case nodes w p of Some (File c wr) \<Rightarrow> c | _ \<Rightarrow> [])"

text \<open>
  Python's \<^verbatim>\<open>s.split(p)\<close> for a separator that is not empty: the segments of \<open>s\<close>
  between the matches of the scan.
\<close>

fun split_on :: "string \<Rightarrow> string \<Rightarrow> string list" where
  "split_on p [] = [[]]"
| "split_on p (c # cs) =
     (if p \<noteq> [] \<and> prefix p (c # cs) then [] # split_on p (drop (length p - 1) cs)
      else (case split_on p cs of [] \<Rightarrow> [[c]] | s # ss \<Rightarrow> (c # s) # ss))"

section \<open>Example inputs\<close>

text \<open>
  Concrete texts and file systems on which the statements below are evaluated: a text
  with one import line and one \<^verbatim>\<open>Promise.race\<close>, the same text after conversion, a text
  with neither the marker nor the import line, a text with two import lines, a text with
  two \<^verbatim>\<open>Promise.race\<close>; a world holding one file, a world without the directory, a
  directory without \<^verbatim>\<open>.ts\<close> entries, a directory whose only \<^verbatim>\<open>.ts\<close> entry cannot be
  read, a directory whose only \<^verbatim>\<open>.ts\<close> file needs the import and may not be written, and a directory with two \<^verbatim>\<open>.ts\<close> files, another file and a subdirectory.
\<close>

definition ex_path :: path where
  "ex_path = ''services/supabase/a.ts''"

definition ex_plain :: string where
  "ex_plain = import_pattern @ ''\<newline>x = Promise.race([q, t]);\<newline>''"

definition ex_done :: string where
  "ex_done = import_pattern @ inserted @ ''\<newline>x = Promise.race([q, t]);\<newline>''"

definition ex_other :: string where
  "ex_other = ''export const x = 1;\<newline>''"

definition ex_world :: "string \<Rightarrow> world" where
  "ex_world c = \<lparr>nodes = [ex_path \<mapsto> File c True], io = [], out = []\<rparr>"

definition ex_nodir :: world where
  "ex_nodir = \<lparr>nodes = Map.empty, io = [], out = []\<rparr>"

definition ex_no_ts :: world where
  "ex_no_ts =
     \<lparr>nodes = [services_dir \<mapsto> Dir [''notes.md'', ''sub''],
               ''services/supabase/notes.md'' \<mapsto> File ex_plain True,
               ''services/supabase/sub'' \<mapsto> Dir [''c.ts''],
               ''services/supabase/sub/c.ts'' \<mapsto> File ex_plain True],
      io = [], out = []\<rparr>"

definition ex_opaque :: world where
  "ex_opaque =
     \<lparr>nodes = [services_dir \<mapsto> Dir [''a.ts''], ''services/supabase/a.ts'' \<mapsto> Opaque],
      io = [], out = []\<rparr>"

definition ex_readonly :: world where
  "ex_readonly =
     \<lparr>nodes = [services_dir \<mapsto> Dir [''a.ts''],
               ''services/supabase/a.ts'' \<mapsto> File ex_plain False],
      io = [], out = []\<rparr>"

definition ex_fs :: world where
  "ex_fs =
     \<lparr>nodes = [services_dir \<mapsto> Dir [''a.ts'', ''b.ts'', ''notes.md'', ''sub''],
               ''services/supabase/a.ts'' \<mapsto> File ex_plain True,
               ''services/supabase/b.ts'' \<mapsto> File ex_done True,
               ''services/supabase/notes.md'' \<mapsto> File ex_plain True,
               ''services/supabase/sub'' \<mapsto> Dir [''c.ts''],
               ''services/supabase/sub/c.ts'' \<mapsto> File ex_plain True],
      io = [], out = []\<rparr>"

definition ex_twice :: string where
  "ex_twice = import_pattern @ ''\<newline>'' @ import_pattern @ ''\<newline>''"

definition ex_twice_done :: string where
  "ex_twice_done = import_pattern @ inserted @ ''\<newline>'' @ import_pattern @ inserted @ ''\<newline>''"

definition ex_races :: string where
  "ex_races = ''Promise.race(a); Promise.race(b);''"

section \<open>Lemmas on texts\<close>

lemma occurrences_Cons:
  "occurrences p (c # cs) =
     (if prefix p (c # cs) then [0] else []) @ map Suc (occurrences p cs)"
proof -
  have "[0..<Suc (Suc (length cs))] = 0 # [Suc 0..<Suc (Suc (length cs))]"
    by (rule upt_conv_Cons) simp
  also have "\<dots> = 0 # map Suc [0..<Suc (length cs)]"
    by (simp only: map_Suc_upt)
  finally have u: "[0..<Suc (Suc (length cs))] = 0 # map Suc [0..<Suc (length cs)]" .
  show ?thesis
    by (simp del: upt_Suc add: occurrences_def u filter_map comp_def)
qed

lemma length_occurrences: "length (occurrences p s) = occ_count p s"
proof (induction s)
  case Nil
  show ?case by (simp add: occurrences_def)
next
  case (Cons c cs)
  then show ?case by (simp add: occurrences_Cons)
qed

lemma set_occurrences:
  "i \<in> set (occurrences p s) \<longleftrightarrow> i \<le> length s \<and> prefix p (drop i s)"
  by (auto simp del: upt_Suc simp add: occurrences_def)

lemma sublist_iff_occurrence:
  "sublist p s \<longleftrightarrow> (\<exists>i\<le>length s. prefix p (drop i s))"
proof
  assume "sublist p s"
  then obtain ps ss where s: "s = ps @ p @ ss" by (auto simp: sublist_def)
  then have "prefix p (drop (length ps) s)" by simp
  moreover have "length ps \<le> length s" using s by simp
  ultimately show "\<exists>i\<le>length s. prefix p (drop i s)" by blast
next
  assume "\<exists>i\<le>length s. prefix p (drop i s)"
  then obtain i where "prefix p (drop i s)" by blast
  then have "sublist p (drop i s)" by (rule prefix_imp_sublist)
  then show "sublist p s"
    by (metis append_take_drop_id sublist_append)
qed

lemma prefix_shorter:
  assumes "prefix p (u @ v)" "length p \<le> length u"
  shows "prefix p u"
  using assms by (auto simp: prefix_append)

lemma re_sub_no_match:
  "p \<noteq> [] \<Longrightarrow> \<not> sublist p s \<Longrightarrow> re_sub p t s = s"
  by (induction s) (auto simp: sublist_Cons_right)

lemma re_sub_at_match:
  assumes "p \<noteq> []"
  shows "\<not> sublist p (s @ butlast p) \<Longrightarrow>
         re_sub p t (s @ p @ rest) = s @ expand t p @ re_sub p t rest"
proof (induction s)
  case Nil
  from assms obtain a p' where p: "p = a # p'" by (cases p) auto
  show ?case by (simp add: p)
next
  case (Cons x s)
  have np: "\<not> prefix p (x # s @ p @ rest)"
  proof
    assume pre: "prefix p (x # s @ p @ rest)"
    have "x # s @ p @ rest = (x # s @ butlast p) @ ([last p] @ rest)"
      using assms by simp
    with pre have "prefix p ((x # s @ butlast p) @ ([last p] @ rest))" by simp
    moreover have "length p \<le> length (x # s @ butlast p)" using assms by simp
    ultimately have "prefix p (x # s @ butlast p)" by (rule prefix_shorter)
    then have "sublist p ((x # s) @ butlast p)" by simp
    with Cons.prems show False by simp
  qed
  have "\<not> sublist p (s @ butlast p)"
    using Cons.prems by (simp add: sublist_Cons_right)
  with Cons.IH np assms show ?case by simp
qed

lemma unborderedD:
  assumes "unbordered p" "prefix u p" "suffix u p" "u \<noteq> []" "length u < length p"
  shows False
proof -
  let ?k = "length u"
  from assms(2) have a: "take ?k p = u" by (auto simp: prefix_def)
  from assms(3) have b: "drop (length p - ?k) p = u" by (auto simp: suffix_def)
  have "?k \<in> set [1..<length p]" using assms(4,5) by (cases u) auto
  with assms(1) have "take ?k p \<noteq> drop (length p - ?k) p"
    unfolding unbordered_def list_all_iff by blast
  with a b show False by simp
qed

lemma prefix_of_longer:
  assumes "prefix p (u @ v)" "length u \<le> length p"
  shows "prefix u p"
  using assms(1) prefix_length_prefix [of u "u @ v" p] assms(2)
  by (simp add: prefix_length_le)

lemma no_match_before_end:
  assumes "unbordered p" "\<not> sublist p s"
  shows "\<not> sublist p (s @ butlast p)"
proof
  assume "sublist p (s @ butlast p)"
  then consider "sublist p s" | "sublist p (butlast p)"
    | xs1 xs2 where "p = xs1 @ xs2" "suffix xs1 s" "prefix xs2 (butlast p)"
    by (auto simp: sublist_append)
  then show False
  proof cases
    case 1
    with assms(2) show ?thesis by simp
  next
    case 2
    then have "length p \<le> length (butlast p)" by (rule sublist_length_le)
    moreover have "p \<noteq> []" using assms(2) by auto
    ultimately show ?thesis by (cases p rule: rev_cases) auto
  next
    case 3
    have pne: "p \<noteq> []" using assms(2) by auto
    have x2: "xs2 \<noteq> []" using 3 assms(2) by auto
    have "prefix xs2 p" using 3(3) by (metis prefix_order.trans prefixeq_butlast)
    moreover have "suffix xs2 p" using 3(1) by (auto simp: suffix_def)
    moreover have "length xs2 < length p"
      using prefix_length_le [OF 3(3)] pne by (cases p rule: rev_cases) auto
    ultimately show ?thesis using unborderedD [OF assms(1)] x2 by blast
  qed
qed

lemma occ_count_skip:
  assumes "unbordered p"
  shows "suffix t p \<Longrightarrow> length t < length p \<Longrightarrow> occ_count p (t @ rest) = occ_count p rest"
proof (induction t)
  case Nil
  show ?case by simp
next
  case (Cons x t)
  have "\<not> prefix p (x # t @ rest)"
  proof
    assume "prefix p (x # t @ rest)"
    then have "prefix p ((x # t) @ rest)" by simp
    then have "prefix (x # t) p"
      using prefix_of_longer [of p "x # t" rest] Cons.prems(2) by simp
    with unborderedD [OF assms _ Cons.prems(1)] Cons.prems(2) show False by blast
  qed
  moreover have "suffix t p" using Cons.prems(1) by (rule suffix_ConsD)
  ultimately show ?case using Cons by simp
qed

lemma findall_count_occ:
  "unbordered p \<Longrightarrow> p \<noteq> [] \<Longrightarrow> findall_count p s = occ_count p s"
proof (induction p s rule: findall_count.induct)
  case (1 p)
  then show ?case by simp
next
  case (2 p c cs)
  note ne = \<open>p \<noteq> []\<close> and ub = \<open>unbordered p\<close>
  show ?case
  proof (cases "prefix p (c # cs)")
    case True
    then obtain rest where r: "c # cs = p @ rest" by (auto simp: prefix_def)
    with ne have cs: "cs = tl p @ rest" by (cases p) auto
    have d: "drop (length p - 1) cs = rest" using cs ne by simp
    have "suffix (tl p) p" using ne by (cases p) (auto simp: suffix_def)
    then have sk: "occ_count p (tl p @ rest) = occ_count p rest"
      using ub ne by (intro occ_count_skip) auto
    have "findall_count p (c # cs) = Suc (findall_count p rest)"
      using True ne d by simp
    also have "findall_count p rest = occ_count p rest"
      using "2.IH"(2) [OF ne True ub ne] d by simp
    also have "Suc (occ_count p rest) = occ_count p (c # cs)"
      using True sk cs by simp
    finally show ?thesis .
  next
    case False
    with 2 show ?thesis by simp
  qed
qed

lemma unbordered_first:
  assumes "hd p \<notin> set (tl p)"
  shows "unbordered p"
  unfolding unbordered_def list_all_iff
proof
  fix k assume "k \<in> set [1..<length p]"
  then have k: "1 \<le> k" "k < length p" by auto
  show "take k p \<noteq> drop (length p - k) p"
  proof
    assume eq: "take k p = drop (length p - k) p"
    have "hd (take k p) = hd p" using k by (cases p) (auto simp: take_Suc_conv_app_nth hd_take)
    moreover have "hd (drop (length p - k) p) = p ! (length p - k)"
      using k by (simp add: hd_drop_conv_nth)
    moreover have "p ! (length p - k) \<in> set (tl p)"
    proof -
      obtain a p' where p: "p = a # p'" using k by (cases p) auto
      have "length p - k = Suc (length p' - k)" using k p by auto
      moreover have "length p' - k < length p'" using k p by auto
      ultimately show ?thesis using p by simp
    qed
    ultimately show False using assms eq by simp
  qed
qed

lemma unbordered_last:
  assumes "last p \<notin> set (butlast p)"
  shows "unbordered p"
  unfolding unbordered_def list_all_iff
proof
  fix k assume "k \<in> set [1..<length p]"
  then have k: "1 \<le> k" "k < length p" by auto
  show "take k p \<noteq> drop (length p - k) p"
  proof
    assume eq: "take k p = drop (length p - k) p"
    have ne: "p \<noteq> []" using k by auto
    have "last (drop (length p - k) p) = last p" using k by simp
    moreover have "last (take k p) = p ! (k - 1)"
    proof -
      have "take k p \<noteq> []" using k by auto
      then have "last (take k p) = take k p ! (length (take k p) - 1)"
        by (rule last_conv_nth)
      also have "\<dots> = p ! (k - 1)" using k by (simp add: min_def)
      finally show ?thesis .
    qed
    moreover have "p ! (k - 1) \<in> set (butlast p)"
    proof -
      have "k - 1 < length (butlast p)" using k by simp
      then have "butlast p ! (k - 1) \<in> set (butlast p)" by (rule nth_mem)
      then show ?thesis using k by (simp add: nth_butlast)
    qed
    ultimately show False using assms eq by simp
  qed
qed

lemma unbordered_import_pattern: "unbordered import_pattern"
  by (rule unbordered_last) (simp add: import_pattern_def)

lemma unbordered_promise_race: "unbordered promise_race"
  by (rule unbordered_first) (simp add: promise_race_def)

lemma prefix_upto_last:
  assumes "prefix q (u @ v)" "u \<noteq> []" "last u \<notin> set q"
  shows "prefix q u"
proof -
  from assms(1) consider "prefix q u" | us where "q = u @ us"
    by (auto simp: prefix_append)
  then show ?thesis
  proof cases
    case 1 then show ?thesis .
  next
    case 2
    then have "last u \<in> set q" using assms(2) by simp
    with assms(3) show ?thesis by simp
  qed
qed

lemma occ_count_append:
  assumes "q \<noteq> []"
  shows "u \<noteq> [] \<Longrightarrow> last u \<notin> set q \<Longrightarrow> occ_count q (u @ v) = occ_count q u + occ_count q v"
proof (induction u)
  case Nil
  then show ?case by simp
next
  case (Cons x u)
  have eq: "prefix q ((x # u) @ v) \<longleftrightarrow> prefix q (x # u)"
    using prefix_upto_last [of q "x # u" v] Cons.prems(2) prefix_prefix [of q "x # u" v]
    by blast
  show ?case
  proof (cases "u = []")
    case True
    with eq assms show ?thesis by simp
  next
    case False
    with Cons have "occ_count q (u @ v) = occ_count q u + occ_count q v" by simp
    with eq show ?thesis by simp
  qed
qed

lemma prefix_re_sub:
  assumes "p \<noteq> []" "last p \<notin> set q"
  shows "prefix q (re_sub p [Group1, Chars ins] s) \<longleftrightarrow> prefix q s"
  using assms
proof (induction p "[Group1, Chars ins]" s arbitrary: q rule: re_sub.induct)
  case (1 p)
  then show ?case by simp
next
  case (2 p c cs)
  show ?case
  proof (cases "prefix p (c # cs)")
    case True
    then obtain rest where r: "c # cs = p @ rest" by (auto simp: prefix_def)
    have "re_sub p [Group1, Chars ins] (c # cs) = p @ (ins @ re_sub p [Group1, Chars ins] (drop (length p - 1) cs))"
      using True "2.prems" by simp
    then have "prefix q (re_sub p [Group1, Chars ins] (c # cs)) \<longleftrightarrow> prefix q p"
      using prefix_upto_last [of q p] prefix_prefix [of q p] "2.prems" by metis
    also have "\<dots> \<longleftrightarrow> prefix q (p @ rest)"
      using prefix_upto_last [of q p rest] prefix_prefix [of q p rest] "2.prems" by blast
    finally show ?thesis using r by simp
  next
    case False
    have "prefix q' (re_sub p [Group1, Chars ins] cs) \<longleftrightarrow> prefix q' cs" if "last p \<notin> set q'" for q'
      using "2.hyps"(3) [OF "2.prems"(1) False "2.prems"(1) that] .
    from this [of "tl q"] "2.prems" False show ?thesis
      by (cases q) auto
  qed
qed

lemma occ_count_re_sub:
  assumes "q \<noteq> []" "last p \<notin> set q" "ins \<noteq> []" "last ins \<notin> set q"
    and "occ_count q (p @ ins) = 0" "occ_count q p = 0"
  shows "p \<noteq> [] \<Longrightarrow> occ_count q (re_sub p [Group1, Chars ins] s) = occ_count q s"
  using assms
proof (induction p "[Group1, Chars ins]" s rule: re_sub.induct)
  case (1 p)
  then show ?case by simp
next
  case (2 p c cs)
  show ?case
  proof (cases "prefix p (c # cs)")
    case True
    then obtain rest where r: "c # cs = p @ rest" by (auto simp: prefix_def)
    with "2.prems"(1) have d: "drop (length p - 1) cs = rest" by (cases p) auto
    let ?X = "re_sub p [Group1, Chars ins] rest"
    have ih: "occ_count q ?X = occ_count q rest"
      using "2.hyps"(2) [OF "2.prems"(1) True "2.prems"] d by simp
    have "re_sub p [Group1, Chars ins] (c # cs) = (p @ ins) @ ?X"
      using True "2.prems"(1) d by simp
    then have "occ_count q (re_sub p [Group1, Chars ins] (c # cs)) = occ_count q ((p @ ins) @ ?X)"
      by simp
    also have "\<dots> = occ_count q (p @ ins) + occ_count q ?X"
      using "2.prems" by (intro occ_count_append) auto
    also have "\<dots> = occ_count q p + occ_count q rest"
      using ih "2.prems" by simp
    also have "\<dots> = occ_count q (p @ rest)"
      using "2.prems" by (intro occ_count_append [symmetric]) auto
    finally show ?thesis using r by simp
  next
    case False
    have ih: "occ_count q (re_sub p [Group1, Chars ins] cs) = occ_count q cs"
      using "2.hyps"(3) [OF "2.prems"(1) False "2.prems"] .
    have "prefix q (c # re_sub p [Group1, Chars ins] cs) \<longleftrightarrow> prefix q (c # cs)"
      using prefix_re_sub [of p "tl q" ins cs] "2.prems"
      by (cases q) auto
    with ih False "2.prems"(1) show ?thesis by simp
  qed
qed

lemma import_pattern_nonempty: "import_pattern \<noteq> []"
  by (simp add: import_pattern_def)

lemma promise_race_nonempty: "promise_race \<noteq> []"
  by (simp add: promise_race_def)

lemma expand_replacement: "expand replacement g = g @ inserted"
  by (simp add: replacement_def inserted_def)

lemma occ_count_zero: "p \<noteq> [] \<Longrightarrow> \<not> sublist p s \<Longrightarrow> occ_count p s = 0"
  by (induction s) (auto simp: sublist_Cons_right)

lemma occ_count_positive: "p \<noteq> [] \<Longrightarrow> sublist p s \<Longrightarrow> 0 < occ_count p s"
  by (induction s) (auto simp: sublist_Cons_right)

lemma occ_count_before_match:
  assumes "p \<noteq> []"
  shows "\<not> sublist p (s @ butlast p) \<Longrightarrow> occ_count p (s @ p @ rest) = occ_count p (p @ rest)"
proof (induction s)
  case Nil
  show ?case by simp
next
  case (Cons x s)
  have np: "\<not> prefix p (x # s @ p @ rest)"
  proof
    assume pre: "prefix p (x # s @ p @ rest)"
    have "x # s @ p @ rest = (x # s @ butlast p) @ ([last p] @ rest)"
      using assms by simp
    with pre have "prefix p ((x # s @ butlast p) @ ([last p] @ rest))" by simp
    moreover have "length p \<le> length (x # s @ butlast p)" using assms by simp
    ultimately have "prefix p (x # s @ butlast p)" by (rule prefix_shorter)
    then have "sublist p ((x # s) @ butlast p)" by simp
    with Cons.prems show False by simp
  qed
  have "\<not> sublist p (s @ butlast p)"
    using Cons.prems by (simp add: sublist_Cons_right)
  with Cons.IH np show ?case by simp
qed

lemma occ_count_at_match:
  assumes "unbordered p" "p \<noteq> []"
  shows "occ_count p (p @ rest) = Suc (occ_count p rest)"
proof -
  obtain a p' where p: "p = a # p'" using assms(2) by (cases p) auto
  have "suffix p' p" by (simp add: p suffix_def)
  then have "occ_count p (p' @ rest) = occ_count p rest"
    using assms(1) p by (intro occ_count_skip) auto
  moreover have "occ_count p (p @ rest) = Suc (occ_count p (p' @ rest))"
  proof -
    have e: "p @ rest = a # (p' @ rest)" by (simp add: p)
    have "prefix p (p @ rest)" by simp
    then have "prefix p (a # (p' @ rest))" by (simp only: e)
    then have "occ_count p (a # (p' @ rest)) = Suc (occ_count p (p' @ rest))" by simp
    then show ?thesis by (simp only: e)
  qed
  ultimately show ?thesis by simp
qed

lemma re_sub_join:
  "unbordered p \<Longrightarrow> p \<noteq> [] \<Longrightarrow> \<forall>s\<in>set segs. \<not> sublist p s \<Longrightarrow>
     re_sub p t (join p segs) = join (expand t p) segs"
proof (induction p segs rule: join.induct)
  case (1 sep)
  then show ?case by simp
next
  case (2 sep s)
  then show ?case by (simp add: re_sub_no_match)
next
  case (3 sep s t' ss)
  have "\<not> sublist sep s" using "3.prems"(3) by simp
  with "3.prems"(1) have "\<not> sublist sep (s @ butlast sep)" by (rule no_match_before_end)
  with "3.prems"(2)
  have "re_sub sep t (s @ sep @ join sep (t' # ss)) =
          s @ expand t sep @ re_sub sep t (join sep (t' # ss))"
    by (rule re_sub_at_match)
  moreover have "re_sub sep t (join sep (t' # ss)) = join (expand t sep) (t' # ss)"
    using "3.IH" "3.prems" by simp
  ultimately show ?case by simp
qed

lemma occ_count_join:
  "unbordered p \<Longrightarrow> p \<noteq> [] \<Longrightarrow> \<forall>s\<in>set segs. \<not> sublist p s \<Longrightarrow>
     occ_count p (join p segs) = length segs - 1"
proof (induction p segs rule: join.induct)
  case (1 sep)
  then show ?case by simp
next
  case (2 sep s)
  then show ?case by (simp add: occ_count_zero)
next
  case (3 sep s t' ss)
  have "\<not> sublist sep s" using "3.prems"(3) by simp
  with "3.prems"(1) have "\<not> sublist sep (s @ butlast sep)" by (rule no_match_before_end)
  with "3.prems"(2)
  have "occ_count sep (s @ sep @ join sep (t' # ss)) = occ_count sep (sep @ join sep (t' # ss))"
    by (rule occ_count_before_match)
  also have "\<dots> = Suc (occ_count sep (join sep (t' # ss)))"
    using "3.prems"(1,2) by (rule occ_count_at_match)
  also have "occ_count sep (join sep (t' # ss)) = length (t' # ss) - 1"
    using "3.IH" "3.prems" by simp
  finally show ?case by simp
qed

lemma re_sub_has_expansion:
  "p \<noteq> [] \<Longrightarrow> sublist p s \<Longrightarrow> sublist (expand t p) (re_sub p t s)"
proof (induction p t s rule: re_sub.induct)
  case (1 p t)
  then show ?case by simp
next
  case (2 p t c cs)
  show ?case
  proof (cases "prefix p (c # cs)")
    case True
    with "2.prems"(1) show ?thesis by simp
  next
    case False
    with "2.prems" have "sublist p cs" by (simp add: sublist_Cons_right)
    with "2.IH"(3) "2.prems"(1) False have "sublist (expand t p) (re_sub p t cs)" by simp
    then have "sublist (expand t p) (c # re_sub p t cs)" by (simp add: sublist_Cons_right)
    with False "2.prems"(1) show ?thesis by simp
  qed
qed

lemma marker_in_expansion: "sublist marker (expand replacement import_pattern)"
  by (simp add: replacement_def marker_def retry_import_def import_pattern_def
      sublist_code)

lemma new_content_idem: "new_content (new_content c) = new_content c"
proof (cases "sublist marker c")
  case True
  then show ?thesis by (simp add: new_content_def)
next
  case nm: False
  show ?thesis
  proof (cases "sublist import_pattern c")
    case False
    then have "re_sub import_pattern replacement c = c"
      using import_pattern_nonempty by (intro re_sub_no_match) auto
    then show ?thesis by (simp add: new_content_def)
  next
    case True
    with import_pattern_nonempty
    have "sublist (expand replacement import_pattern) (re_sub import_pattern replacement c)"
      by (rule re_sub_has_expansion)
    with marker_in_expansion
    have "sublist marker (re_sub import_pattern replacement c)"
      by (rule sublist_order.order_trans)
    then show ?thesis using nm by (simp add: new_content_def)
  qed
qed

lemma occurrences_apart:
  assumes "unbordered p" "i \<in> set (occurrences p s)" "j \<in> set (occurrences p s)" "i < j"
  shows "i + length p \<le> j"
proof (rule ccontr)
  assume "\<not> i + length p \<le> j"
  then have lt: "j - i < length p" using assms(4) by simp
  let ?k = "j - i"
  from assms(2) obtain r where r: "drop i s = p @ r"
    by (auto simp: set_occurrences prefix_def)
  have "drop j s = drop ?k (drop i s)" using assms(4) by simp
  also have "\<dots> = drop ?k p @ r" using r lt by simp
  finally have "prefix p (drop ?k p @ r)" using assms(3) by (simp add: set_occurrences)
  then have "prefix (drop ?k p) p"
    using prefix_of_longer [of p "drop ?k p" r] by simp
  moreover have "suffix (drop ?k p) p" by (rule suffix_drop)
  moreover have "drop ?k p \<noteq> []" using lt by simp
  moreover have "length (drop ?k p) < length p" using lt assms(4) by simp
  ultimately show False using unborderedD [OF assms(1)] by blast
qed

lemma promise_count_kept:
  "occ_count promise_race (re_sub import_pattern replacement c) = occ_count promise_race c"
proof -
  have "occ_count promise_race (re_sub import_pattern [Group1, Chars inserted] c)
          = occ_count promise_race c"
  proof (rule occ_count_re_sub)
    show "promise_race \<noteq> []" by (rule promise_race_nonempty)
    show "last import_pattern \<notin> set promise_race"
      by (simp add: import_pattern_def promise_race_def)
    show "inserted \<noteq> []" by (simp add: inserted_def)
    show "last inserted \<notin> set promise_race"
      by (simp add: inserted_def retry_import_def promise_race_def)
    show "occ_count promise_race (import_pattern @ inserted) = 0"
      by (rule occ_count_zero [OF promise_race_nonempty])
        (simp add: import_pattern_def inserted_def retry_import_def promise_race_def
          sublist_code)
    show "occ_count promise_race import_pattern = 0"
      by (rule occ_count_zero [OF promise_race_nonempty])
        (simp add: import_pattern_def promise_race_def sublist_code)
    show "import_pattern \<noteq> []" by (rule import_pattern_nonempty)
  qed
  then show ?thesis by (simp add: replacement_def inserted_def)
qed

lemma promise_count_new_content:
  "findall_count promise_race (new_content c) = length (occurrences promise_race c)"
proof -
  have "findall_count promise_race (new_content c) = occ_count promise_race (new_content c)"
    using unbordered_promise_race promise_race_nonempty by (rule findall_count_occ)
  also have "\<dots> = occ_count promise_race c"
    by (simp add: new_content_def promise_count_kept)
  finally show ?thesis by (simp add: length_occurrences)
qed

section \<open>Lemmas on \<^verbatim>\<open>convert_file\<close>\<close>

lemma convert_file_text:
  assumes "nodes w p = Some (File c wr)"
  shows "convert_file p w =
     (if new_content c = c
      then (Ok False, w\<lparr>io := io w @ [Read p], out := out w @ file_msgs p c\<rparr>)
      else if wr
      then (Ok True, w\<lparr>nodes := (nodes w)(p \<mapsto> File (new_content c) True),
                          io := io w @ [Read p, Write p (new_content c)],
                          out := out w @ file_msgs p c\<rparr>)
      else (Raise (WriteFault p), w\<lparr>io := io w @ [Read p], out := out w @ file_msgs p c\<rparr>))"
  using assms
  by (simp add: convert_file_def read_text_def write_text_def print_def new_content_def
      file_msgs_def Let_def)

lemma convert_file_unreadable:
  assumes "\<forall>c wr. nodes w p \<noteq> Some (File c wr)"
  shows "convert_file p w = (Raise (ReadFault p), print (Converting p) w)"
proof -
  have "read_text p (print (Converting p) w) = (Raise (ReadFault p), print (Converting p) w)"
    using assms
    by (auto simp: read_text_def print_def split: option.splits node.splits)
  then show ?thesis by (simp add: convert_file_def)
qed

lemma convert_file_writes:
  assumes "Write q s \<in> set (drop (length (io w)) (io (snd (convert_file p w))))"
  shows "q = p \<and> (\<exists>c. nodes w p = Some (File c True) \<and> s = new_content c \<and> s \<noteq> c)"
proof (cases "\<exists>c wr. nodes w p = Some (File c wr)")
  case True
  then obtain c wr where f: "nodes w p = Some (File c wr)" by blast
  from assms convert_file_text [OF f] show ?thesis
    by (auto simp: f split: if_splits)
next
  case False
  then have "convert_file p w = (Raise (ReadFault p), print (Converting p) w)"
    by (intro convert_file_unreadable) simp
  with assms show ?thesis by (simp add: print_def)
qed

lemma convert_file_frame:
  assumes "q \<noteq> p"
  shows "nodes (snd (convert_file p w)) q = nodes w q"
proof (cases "\<exists>c wr. nodes w p = Some (File c wr)")
  case True
  then obtain c wr where f: "nodes w p = Some (File c wr)" by blast
  from convert_file_text [OF f] assms show ?thesis by simp
next
  case False
  then have "convert_file p w = (Raise (ReadFault p), print (Converting p) w)"
    by (intro convert_file_unreadable) simp
  then show ?thesis by (simp add: print_def)
qed

lemma convert_file_fst_cong:
  assumes "nodes w1 q = nodes w q"
  shows "fst (convert_file q w1) = fst (convert_file q w)"
proof (cases "\<exists>c wr. nodes w q = Some (File c wr)")
  case True
  then obtain c wr where f: "nodes w q = Some (File c wr)" by blast
  with assms have f1: "nodes w1 q = Some (File c wr)" by simp
  show ?thesis by (simp add: convert_file_text [OF f] convert_file_text [OF f1])
next
  case False
  with assms have "\<forall>c wr. nodes w1 q \<noteq> Some (File c wr)"
    and "\<forall>c wr. nodes w q \<noteq> Some (File c wr)" by simp_all
  then show ?thesis by (simp add: convert_file_unreadable)
qed

lemma text_of_cong: "nodes w1 q = nodes w q \<Longrightarrow> text_of w1 q = text_of w q"
  by (simp add: text_of_def)

lemma convert_file_Ok:
  assumes "convert_file p w = (Ok b, w1)"
  shows "out w1 = out w @ file_msgs p (text_of w p) \<and>
         io w1 = io w @ Read p # (if b then [Write p (new_content (text_of w p))] else []) \<and>
         (\<forall>q. q \<noteq> p \<longrightarrow> nodes w1 q = nodes w q)"
proof (cases "\<exists>c wr. nodes w p = Some (File c wr)")
  case True
  then obtain c wr where f: "nodes w p = Some (File c wr)" by blast
  from assms convert_file_text [OF f] show ?thesis
    by (auto simp: f text_of_def split: if_splits)
next
  case False
  then have "convert_file p w = (Raise (ReadFault p), print (Converting p) w)"
    by (intro convert_file_unreadable) simp
  with assms show ?thesis by simp
qed

lemma new_content_differs:
  assumes "\<not> sublist marker c" "sublist import_pattern c"
  shows "new_content c \<noteq> c"
proof -
  have "sublist (expand replacement import_pattern) (re_sub import_pattern replacement c)"
    using import_pattern_nonempty assms(2) by (rule re_sub_has_expansion)
  with marker_in_expansion have "sublist marker (re_sub import_pattern replacement c)"
    by (rule sublist_order.order_trans)
  then have "sublist marker (new_content c)" using assms(1) by (simp add: new_content_def)
  with assms(1) show ?thesis by auto
qed

lemma re_sub_single:
  assumes "p \<noteq> []" "occurrences p c = [i]"
  shows "re_sub p t c = take i c @ expand t p @ drop (i + length p) c"
proof -
  have occ: "j \<in> set (occurrences p c) \<longleftrightarrow> j = i" for j using assms(2) by simp
  from occ [of i] have i: "i \<le> length c" "prefix p (drop i c)"
    by (simp_all add: set_occurrences)
  let ?r = "drop (i + length p) c"
  from i(2) obtain r where r: "drop i c = p @ r" by (auto simp: prefix_def)
  then have "drop (length p) (drop i c) = r" by simp
  then have rr: "r = ?r" by (simp add: add.commute)
  have c: "c = take i c @ p @ ?r" using r rr by (metis append_take_drop_id)
  have before: "\<not> sublist p (take i c @ butlast p)"
  proof
    assume "sublist p (take i c @ butlast p)"
    then obtain j where j: "j \<le> length (take i c @ butlast p)"
      "prefix p (drop j (take i c @ butlast p))"
      by (auto simp: sublist_iff_occurrence)
    from j(2) have "length p \<le> length (drop j (take i c @ butlast p))"
      by (rule prefix_length_le)
    also have "\<dots> = i + (length p - 1) - j"
      using i(1) by (simp only: length_drop length_append length_take length_butlast min_absorb2)
    finally have ji: "j < i" using assms(1) by (cases p) auto
    have "take i c @ p @ ?r = (take i c @ butlast p) @ ([last p] @ ?r)"
      by (metis append.assoc append_butlast_last_id assms(1))
    with c have "c = (take i c @ butlast p) @ ([last p] @ ?r)" by (rule trans)
    then have "drop j c = drop j (take i c @ butlast p) @ ([last p] @ ?r)"
      using j(1) by (metis drop_append order_refl diff_is_0_eq drop0)
    with j(2) have "prefix p (drop j c)" by (simp only: prefix_prefix)
    moreover have "j \<le> length c" using ji i(1) by simp
    ultimately have "j \<in> set (occurrences p c)" by (simp add: set_occurrences)
    with occ ji show False by simp
  qed
  have after: "\<not> sublist p ?r"
  proof
    assume "sublist p ?r"
    then obtain j where j: "j \<le> length ?r" "prefix p (drop j ?r)"
      by (auto simp: sublist_iff_occurrence)
    have "length p \<le> length (drop i c)" using i(2) by (rule prefix_length_le)
    then have "j + (i + length p) \<le> length c"
      using j(1) i(1) unfolding length_drop by arith
    moreover have "prefix p (drop (j + (i + length p)) c)" using j(2) by simp
    ultimately have "j + (i + length p) \<in> set (occurrences p c)"
      by (simp add: set_occurrences)
    with occ assms(1) show False by simp
  qed
  have "re_sub p t (take i c @ p @ ?r) = take i c @ expand t p @ re_sub p t ?r"
    using assms(1) before by (rule re_sub_at_match)
  also have "re_sub p t ?r = ?r" using assms(1) after by (rule re_sub_no_match)
  finally show ?thesis using c by simp
qed

lemma length_join:
  "segs \<noteq> [] \<Longrightarrow>
     length (join sep segs) = sum_list (map length segs) + (length segs - 1) * length sep"
  by (induction sep segs rule: join.induct) simp_all

lemma split_on_nonempty: "split_on p s \<noteq> []"
  by (induction p s rule: split_on.induct) (auto split: list.splits)

lemma join_Cons_first: "join p ((c # s) # ss) = c # join p (s # ss)"
  by (cases ss) simp_all

lemma prefix_first_segment: "prefix s (join p (s # ss))"
  by (cases ss) simp_all

lemma join_split_on: "p \<noteq> [] \<Longrightarrow> join p (split_on p s) = s"
proof (induction p s rule: split_on.induct)
  case (1 p)
  show ?case by simp
next
  case (2 p c cs)
  show ?case
  proof (cases "prefix p (c # cs)")
    case True
    then obtain r where r: "c # cs = p @ r" by (auto simp: prefix_def)
    with "2.prems" have d: "drop (length p - 1) cs = r" by (cases p) auto
    obtain t ts where t: "split_on p r = t # ts"
      using split_on_nonempty [of p r] by (cases "split_on p r") auto
    have "join p (split_on p r) = r" using "2.IH"(1) "2.prems" True d by simp
    then have e: "join p ([] # split_on p r) = p @ r" by (simp add: t)
    have s1: "split_on p (c # cs) = [] # split_on p r" using True "2.prems" d by simp
    have "join p (split_on p (c # cs)) = p @ r" by (simp only: s1 e)
    then show ?thesis by (simp only: r)
  next
    case False
    obtain t ts where t: "split_on p cs = t # ts"
      using split_on_nonempty [of p cs] by (cases "split_on p cs") auto
    have "join p (split_on p cs) = cs" using "2.IH"(2) "2.prems" False by simp
    then show ?thesis using False t by (simp add: join_Cons_first)
  qed
qed

lemma split_on_free: "p \<noteq> [] \<Longrightarrow> \<forall>s\<in>set (split_on p x). \<not> sublist p s"
proof (induction p x rule: split_on.induct)
  case (1 p)
  then show ?case by simp
next
  case (2 p c cs)
  show ?case
  proof (cases "prefix p (c # cs)")
    case True
    with "2.IH"(1) "2.prems" show ?thesis by simp
  next
    case False
    obtain t ts where t: "split_on p cs = t # ts"
      using split_on_nonempty [of p cs] by (cases "split_on p cs") auto
    have ih: "\<forall>s\<in>set (t # ts). \<not> sublist p s"
      using "2.IH"(2) "2.prems" False t by simp
    have "join p (t # ts) = cs" using join_split_on [OF "2.prems", of cs] t by simp
    then have "prefix t cs" using prefix_first_segment [of t p ts] by simp
    then have "prefix (c # t) (c # cs)" by simp
    with False have "\<not> prefix p (c # t)" using prefix_order.trans by blast
    with ih have "\<not> sublist p (c # t)" by (simp add: sublist_Cons_right)
    with ih False t show ?thesis by simp
  qed
qed

lemma length_split_on:
  assumes "unbordered p" "p \<noteq> []"
  shows "length (split_on p s) = Suc (length (occurrences p s))"
proof -
  have "occ_count p (join p (split_on p s)) = length (split_on p s) - 1"
    using assms split_on_free [OF assms(2)] by (rule occ_count_join)
  then have "occ_count p s = length (split_on p s) - 1"
    by (simp only: join_split_on [OF assms(2)])
  moreover have "0 < length (split_on p s)"
    using split_on_nonempty [of p s] by simp
  ultimately show ?thesis by (simp add: length_occurrences)
qed

section \<open>Lemmas on the loop and on \<^verbatim>\<open>main\<close>\<close>

lemma convert_each_summary:
  "distinct ps \<Longrightarrow> convert_each ps n w = (Ok k, w') \<Longrightarrow>
     k = n + length (filter (\<lambda>p. fst (convert_file p w) = Ok True) ps) \<and>
     out w' = out w @ concat (map (\<lambda>p. file_msgs p (text_of w p)) ps) \<and>
     io w' = io w @ concat (map (\<lambda>p. Read p #
               (if fst (convert_file p w) = Ok True
                then [Write p (new_content (text_of w p))] else [])) ps)"
proof (induction ps arbitrary: n w)
  case Nil
  then show ?case by simp
next
  case (Cons p ps)
  obtain r w1 where cf: "convert_file p w = (r, w1)" by (cases "convert_file p w")
  with Cons.prems(2) obtain b where r: "r = Ok b" by (cases r) auto
  from Cons.prems(2) cf r
  have rest: "convert_each ps (if b then n + 1 else n) w1 = (Ok k, w')" by simp
  from cf r have ok: "convert_file p w = (Ok b, w1)" by simp
  note eff = convert_file_Ok [OF ok]
  have same: "nodes w1 q = nodes w q" if "q \<in> set ps" for q
    using eff that Cons.prems(1) by auto
  have f1: "filter (\<lambda>q. fst (convert_file q w1) = Ok True) ps =
            filter (\<lambda>q. fst (convert_file q w) = Ok True) ps"
    by (rule filter_cong [OF refl]) (simp add: convert_file_fst_cong [OF same])
  have m1: "map (\<lambda>q. file_msgs q (text_of w1 q)) ps = map (\<lambda>q. file_msgs q (text_of w q)) ps"
    by (rule map_cong [OF refl]) (simp add: text_of_cong [OF same])
  have i1: "map (\<lambda>q. Read q # (if fst (convert_file q w1) = Ok True
                 then [Write q (new_content (text_of w1 q))] else [])) ps =
            map (\<lambda>q. Read q # (if fst (convert_file q w) = Ok True
                 then [Write q (new_content (text_of w q))] else [])) ps"
    by (rule map_cong [OF refl])
      (simp add: text_of_cong [OF same] convert_file_fst_cong [OF same])
  from Cons.prems(1) have "distinct ps" by simp
  from Cons.IH [OF this rest] f1 m1 i1 eff ok show ?case by simp
qed

lemma convert_each_completes:
  "\<forall>p\<in>set ps. \<exists>c wr. nodes w p = Some (File c wr) \<and> (wr \<or> new_content c = c) \<Longrightarrow>
     \<exists>k w'. convert_each ps n w = (Ok k, w')"
proof (induction ps arbitrary: n w)
  case Nil
  show ?case by simp
next
  case (Cons p ps)
  then obtain c wr where f: "nodes w p = Some (File c wr)"
    and g: "wr \<or> new_content c = c" by auto
  from convert_file_text [OF f] g
  obtain b w1 where ok: "convert_file p w = (Ok b, w1)"
    and n1: "nodes w1 = nodes w \<or> nodes w1 = (nodes w)(p \<mapsto> File (new_content c) True)"
    by (cases "new_content c = c") auto
  have "\<forall>q\<in>set ps. \<exists>c wr. nodes w1 q = Some (File c wr) \<and> (wr \<or> new_content c = c)"
    using Cons.prems n1 by auto
  from Cons.IH [OF this] ok show ?case by simp
qed

lemma distinct_glob_ts:
  assumes "nodes w d = Some (Dir names)" "distinct names"
  shows "distinct (glob_ts d w)"
  using assms by (simp add: glob_ts_def distinct_map inj_on_def)

lemma main_completes:
  assumes "exists services_dir w"
    and "\<forall>p\<in>set (glob_ts services_dir w).
           \<exists>c wr. nodes w p = Some (File c wr) \<and> (wr \<or> new_content c = c)"
  shows "fst (main w) = Returned"
proof -
  let ?w1 = "print (FoundFiles (length (glob_ts services_dir w))) w"
  have "\<forall>p\<in>set (glob_ts services_dir w).
           \<exists>c wr. nodes ?w1 p = Some (File c wr) \<and> (wr \<or> new_content c = c)"
    using assms(2) by (simp add: print_def)
  from convert_each_completes [OF this, of 0]
  obtain k w' where "convert_each (glob_ts services_dir w) 0 ?w1 = (Ok k, w')" by blast
  with assms(1) show ?thesis by (simp add: main_def Let_def)
qed

lemma main_outcomes:
  assumes "exists services_dir w" "fst (main w) \<noteq> Returned"
  shows "\<exists>e. fst (main w) = Uncaught e"
  using assms
  by (auto simp: main_def Let_def split: prod.splits result.splits)

lemma convert_file_after_Ok:
  assumes "convert_file q w = (Ok b, w1)"
  shows "\<exists>c wr. nodes w1 q = Some (File c wr) \<and> new_content c = c"
proof (cases "\<exists>c wr. nodes w q = Some (File c wr)")
  case True
  then obtain c wr where f: "nodes w q = Some (File c wr)" by blast
  from assms convert_file_text [OF f] new_content_idem [of c] show ?thesis
    by (auto simp: f split: if_splits)
next
  case False
  then have "convert_file q w = (Raise (ReadFault q), print (Converting q) w)"
    by (intro convert_file_unreadable) simp
  with assms show ?thesis by simp
qed

lemma convert_each_raises:
  "\<exists>p\<in>set ps. (\<forall>c wr. nodes w p \<noteq> Some (File c wr)) \<or>
                (\<exists>c. nodes w p = Some (File c False) \<and> new_content c \<noteq> c) \<Longrightarrow>
   \<exists>p\<in>set ps.
     ((\<forall>c wr. nodes w p \<noteq> Some (File c wr)) \<and>
        fst (convert_each ps n w) = Raise (ReadFault p)) \<or>
     ((\<exists>c. nodes w p = Some (File c False) \<and> new_content c \<noteq> c) \<and>
        fst (convert_each ps n w) = Raise (WriteFault p))"
proof (induction ps arbitrary: n w)
  case Nil
  then show ?case by simp
next
  case (Cons q rest)
  show ?case
  proof (cases "\<forall>c wr. nodes w q \<noteq> Some (File c wr)")
    case True
    then have "convert_file q w = (Raise (ReadFault q), print (Converting q) w)"
      by (rule convert_file_unreadable)
    then have "fst (convert_each (q # rest) n w) = Raise (ReadFault q)" by simp
    with True show ?thesis by auto
  next
    case False
    then obtain c wr where f: "nodes w q = Some (File c wr)" by blast
    show ?thesis
    proof (cases "new_content c \<noteq> c \<and> \<not> wr")
      case True
      with convert_file_text [OF f]
      have "fst (convert_each (q # rest) n w) = Raise (WriteFault q)" by simp
      moreover have "\<exists>c. nodes w q = Some (File c False) \<and> new_content c \<noteq> c"
        using f True by auto
      ultimately show ?thesis by auto
    next
      case good: False
      with convert_file_text [OF f] obtain b w1 where ok: "convert_file q w = (Ok b, w1)"
        by (cases "new_content c = c") auto
      from convert_file_Ok [OF ok]
      have frame: "nodes w1 p = nodes w p" if "p \<noteq> q" for p using that by simp
      from convert_file_after_Ok [OF ok]
      obtain c1 wr1 where q1: "nodes w1 q = Some (File c1 wr1)" "new_content c1 = c1"
        by blast
      from Cons.prems obtain p0 where p0: "p0 \<in> set (q # rest)"
        "(\<forall>c wr. nodes w p0 \<noteq> Some (File c wr)) \<or>
         (\<exists>c. nodes w p0 = Some (File c False) \<and> new_content c \<noteq> c)"
        by blast
      have "p0 \<noteq> q" using p0(2) f good by auto
      with p0 have "p0 \<in> set rest" and
        "(\<forall>c wr. nodes w1 p0 \<noteq> Some (File c wr)) \<or>
         (\<exists>c. nodes w1 p0 = Some (File c False) \<and> new_content c \<noteq> c)"
        by (simp_all add: frame)
      then have "\<exists>p\<in>set rest. (\<forall>c wr. nodes w1 p \<noteq> Some (File c wr)) \<or>
                (\<exists>c. nodes w1 p = Some (File c False) \<and> new_content c \<noteq> c)"
        by blast
      from Cons.IH [OF this, of "if b then n + 1 else n"]
      obtain p where p: "p \<in> set rest"
        "((\<forall>c wr. nodes w1 p \<noteq> Some (File c wr)) \<and>
            fst (convert_each rest (if b then n + 1 else n) w1) = Raise (ReadFault p)) \<or>
         ((\<exists>c. nodes w1 p = Some (File c False) \<and> new_content c \<noteq> c) \<and>
            fst (convert_each rest (if b then n + 1 else n) w1) = Raise (WriteFault p))"
        by blast
      have "p \<noteq> q" using p(2) q1 by auto
      then have "nodes w1 p = nodes w p" by (rule frame)
      moreover have "convert_each (q # rest) n w =
                     convert_each rest (if b then n + 1 else n) w1"
        using ok by simp
      ultimately show ?thesis using p by auto
    qed
  qed
qed

lemma main_raises:
  assumes "exists services_dir w"
    and "\<exists>p\<in>set (glob_ts services_dir w).
           (\<forall>c wr. nodes w p \<noteq> Some (File c wr)) \<or>
           (\<exists>c. nodes w p = Some (File c False) \<and> new_content c \<noteq> c)"
  shows "\<exists>p\<in>set (glob_ts services_dir w).
     ((\<forall>c wr. nodes w p \<noteq> Some (File c wr)) \<and> fst (main w) = Uncaught (ReadFault p)) \<or>
     ((\<exists>c. nodes w p = Some (File c False) \<and> new_content c \<noteq> c) \<and>
        fst (main w) = Uncaught (WriteFault p))"
proof -
  let ?ts = "glob_ts services_dir w"
  let ?w1 = "print (FoundFiles (length ?ts)) w"
  have n1: "nodes ?w1 = nodes w" by (simp add: print_def)
  have m: "fst (main w) = Uncaught e" if "fst (convert_each ?ts 0 ?w1) = Raise e" for e
    using that assms(1)
    by (cases "convert_each ?ts 0 ?w1") (simp add: main_def Let_def)
  from assms(2) have "\<exists>p\<in>set ?ts.
           (\<forall>c wr. nodes ?w1 p \<noteq> Some (File c wr)) \<or>
           (\<exists>c. nodes ?w1 p = Some (File c False) \<and> new_content c \<noteq> c)"
    by (simp only: n1)
  from convert_each_raises [OF this, of 0] show ?thesis
    unfolding n1 using m by blast
qed

section \<open>The example inputs, evaluated\<close>

lemma ex_plain_new: "new_content ex_plain = ex_done"
  by (simp add: new_content_def ex_plain_def ex_done_def marker_def import_pattern_def
      replacement_def retry_import_def inserted_def sublist_code)

lemma ex_done_marker: "sublist marker ex_done"
  by (simp add: ex_done_def marker_def import_pattern_def retry_import_def inserted_def
      sublist_code)

lemma ex_done_count: "findall_count promise_race ex_done = 1"
  by (simp add: ex_done_def promise_race_def import_pattern_def retry_import_def inserted_def)

lemma ex_other_plain: "\<not> sublist marker ex_other \<and> \<not> sublist import_pattern ex_other"
  by (simp add: ex_other_def marker_def import_pattern_def sublist_code)

lemma ex_other_count: "findall_count promise_race ex_other = 0"
  by (simp add: ex_other_def promise_race_def)

lemma ex_done_new: "new_content ex_done = ex_done"
  using ex_done_marker by (simp add: new_content_def)

lemma ex_plain_changes: "ex_done \<noteq> ex_plain"
  by (simp add: ex_done_def ex_plain_def inserted_def)

lemma ex_plain_run:
  "convert_file ex_path (ex_world ex_plain) =
     (Ok True,
      \<lparr>nodes = [ex_path \<mapsto> File ex_done True],
       io = [Read ex_path, Write ex_path ex_done],
       out = [Converting ex_path, AddedImport, FoundPatterns 1, ManualRecommended]\<rparr>)"
proof -
  have h: "nodes (ex_world ex_plain) ex_path = Some (File ex_plain True)"
    by (simp add: ex_world_def)
  have m: "\<not> sublist marker ex_plain"
    by (simp add: ex_plain_def marker_def import_pattern_def sublist_code)
  from convert_file_text [OF h] show ?thesis
    by (simp add: ex_plain_new ex_plain_changes file_msgs_def m ex_done_count ex_world_def)
qed

lemma ex_plain_occurrences: "occurrences import_pattern ex_plain = [0]"
  by (simp add: occurrences_def ex_plain_def import_pattern_def prefix_code)

lemma ex_twice_plain: "\<not> sublist marker ex_twice"
  by (simp add: ex_twice_def marker_def import_pattern_def sublist_code)

lemma ex_twice_has_import: "sublist import_pattern ex_twice"
  by (simp add: ex_twice_def)

lemma ex_twice_new: "new_content ex_twice = ex_twice_done"
  by (simp add: new_content_def ex_twice_plain)
    (simp add: ex_twice_def ex_twice_done_def import_pattern_def replacement_def
      retry_import_def inserted_def)

lemma ex_twice_done_lines: "findall_count retry_import ex_twice_done = 2"
  by (simp add: ex_twice_done_def import_pattern_def retry_import_def inserted_def)

lemma ex_twice_lengths: "length ex_twice_done = length ex_twice + 2 * length inserted"
  by (simp add: ex_twice_done_def ex_twice_def)

lemma ex_other_occurrences: "occurrences promise_race ex_other = []"
  by (simp add: occurrences_def ex_other_def promise_race_def prefix_code)

lemma ex_races_occurrences: "occurrences promise_race ex_races = [0, 17]"
  by (simp add: occurrences_def ex_races_def promise_race_def prefix_code)

lemma ex_twice_occurrences: "occurrences import_pattern ex_twice = [0, 50]"
  by (simp add: occurrences_def ex_twice_def import_pattern_def prefix_code)

lemma ex_twice_split: "split_on import_pattern ex_twice = ['''', ''\<newline>'', ''\<newline>'']"
  by (simp add: ex_twice_def import_pattern_def)

lemma ex_fs_dir:
  "nodes ex_fs services_dir = Some (Dir [''a.ts'', ''b.ts'', ''notes.md'', ''sub''])"
  by (simp add: ex_fs_def services_dir_def)

lemma ex_fs_glob:
  "glob_ts services_dir ex_fs = [''services/supabase/a.ts'', ''services/supabase/b.ts'']"
  by (simp add: glob_ts_def ex_fs_dir suffix_to_prefix) (simp add: services_dir_def)

lemma ex_fs_a: "nodes ex_fs ''services/supabase/a.ts'' = Some (File ex_plain True)"
  by (simp add: ex_fs_def services_dir_def)

lemma ex_fs_b: "nodes ex_fs ''services/supabase/b.ts'' = Some (File ex_done True)"
  by (simp add: ex_fs_def services_dir_def)

lemma ex_plain_msgs:
  "file_msgs p ex_plain = [Converting p, AddedImport, FoundPatterns 1, ManualRecommended]"
proof -
  have "\<not> sublist marker ex_plain"
    by (simp add: ex_plain_def marker_def import_pattern_def sublist_code)
  then show ?thesis by (simp add: file_msgs_def ex_plain_new ex_done_count)
qed

lemma ex_done_msgs:
  "file_msgs p ex_done = [Converting p, FoundPatterns 1, ManualRecommended]"
  by (simp add: file_msgs_def ex_done_marker ex_done_new ex_done_count)

lemma ex_fs_a_result: "fst (convert_file ''services/supabase/a.ts'' ex_fs) = Ok True"
  using convert_file_text [OF ex_fs_a] by (simp add: ex_plain_new ex_plain_changes)

lemma ex_fs_b_result: "fst (convert_file ''services/supabase/b.ts'' ex_fs) = Ok False"
  using convert_file_text [OF ex_fs_b] by (simp add: ex_done_new)

lemma ex_fs_returns: "fst (main ex_fs) = Returned"
proof (rule main_completes)
  show "exists services_dir ex_fs" by (simp add: exists_def ex_fs_dir)
  show "\<forall>p\<in>set (glob_ts services_dir ex_fs).
          \<exists>c wr. nodes ex_fs p = Some (File c wr) \<and> (wr \<or> new_content c = c)"
    by (auto simp: ex_fs_glob ex_fs_a ex_fs_b)
qed

lemma ex_no_ts_dir: "nodes ex_no_ts services_dir = Some (Dir [''notes.md'', ''sub''])"
  by (simp add: ex_no_ts_def services_dir_def)

lemma ex_opaque_dir: "nodes ex_opaque services_dir = Some (Dir [''a.ts''])"
  by (simp add: ex_opaque_def services_dir_def)

lemma ex_opaque_main:
  "fst (main ex_opaque) = Uncaught (ReadFault ''services/supabase/a.ts'')"
proof -
  have e: "exists services_dir ex_opaque" by (simp add: exists_def ex_opaque_dir)
  have g: "glob_ts services_dir ex_opaque = [''services/supabase/a.ts'']"
    by (simp add: glob_ts_def ex_opaque_dir suffix_to_prefix) (simp add: services_dir_def)
  have "\<forall>c wr. nodes (print (FoundFiles 1) ex_opaque) ''services/supabase/a.ts'' \<noteq>
          Some (File c wr)"
    by (simp add: print_def ex_opaque_def services_dir_def)
  from convert_file_unreadable [OF this] e g show ?thesis
    by (simp add: main_def Let_def)
qed

lemma ex_opaque_glob: "glob_ts services_dir ex_opaque = [''services/supabase/a.ts'']"
  by (simp add: glob_ts_def ex_opaque_dir suffix_to_prefix) (simp add: services_dir_def)

lemma ex_opaque_a: "nodes ex_opaque ''services/supabase/a.ts'' = Some Opaque"
  by (simp add: ex_opaque_def services_dir_def)

lemma ex_readonly_dir: "nodes ex_readonly services_dir = Some (Dir [''a.ts''])"
  by (simp add: ex_readonly_def services_dir_def)

lemma ex_readonly_glob: "glob_ts services_dir ex_readonly = [''services/supabase/a.ts'']"
  by (simp add: glob_ts_def ex_readonly_dir suffix_to_prefix) (simp add: services_dir_def)

lemma ex_readonly_a:
  "nodes ex_readonly ''services/supabase/a.ts'' = Some (File ex_plain False)"
  by (simp add: ex_readonly_def services_dir_def)

section \<open>The claims\<close>

subsection \<open>C1: the import line is added\<close>

text \<open>
  Claim C1, as it is stated, promises exactly one new line for every text that lacks
  the marker and contains the import line. A text with two import lines gets two: the
  substitution has no count limit.
\<close>
theorem one_line_counterexample:
  "\<not> sublist marker ex_twice \<and> sublist import_pattern ex_twice \<and>
   convert_file ex_path (ex_world ex_twice) =
     (Ok True,
      \<lparr>nodes = [ex_path \<mapsto> File ex_twice_done True],
       io = [Read ex_path, Write ex_path ex_twice_done],
       out = [Converting ex_path, AddedImport]\<rparr>) \<and>
   findall_count retry_import ex_twice_done = 2 \<and>
   length ex_twice_done = length ex_twice + 2 * length inserted"
proof -
  have h: "nodes (ex_world ex_twice) ex_path = Some (File ex_twice True)"
    by (simp add: ex_world_def)
  have d: "ex_twice_done \<noteq> ex_twice"
    using ex_twice_lengths by (auto simp: inserted_def)
  have c: "findall_count promise_race ex_twice_done = 0"
    by (simp add: ex_twice_done_def promise_race_def import_pattern_def retry_import_def
        inserted_def)
  from convert_file_text [OF h]
  have "convert_file ex_path (ex_world ex_twice) =
     (Ok True,
      \<lparr>nodes = [ex_path \<mapsto> File ex_twice_done True],
       io = [Read ex_path, Write ex_path ex_twice_done],
       out = [Converting ex_path, AddedImport]\<rparr>)"
    by (simp add: ex_twice_new d file_msgs_def ex_twice_plain c ex_world_def)
  with ex_twice_plain ex_twice_has_import ex_twice_done_lines ex_twice_lengths
  show ?thesis by simp
qed

text \<open>
  Claim C1, amended: for a readable and writable file whose text lacks the marker
  \<^verbatim>\<open>withRetry\<close> and contains the import line exactly once, at position \<open>i\<close>,
  \<^verbatim>\<open>convert_file\<close> inserts one new line, the literal \<^verbatim>\<open>import { withRetry } from
  '@/lib/supabase/retry';\<close>, directly behind that import line, writes the resulting text
  to the file and returns True.
\<close>
theorem single_import_line:
  assumes "nodes w p = Some (File c True)"
    and "\<not> sublist marker c"
    and "occurrences import_pattern c = [i]"
    and "c' = take (i + length import_pattern) c @ CHR 0x0A # retry_import @
                drop (i + length import_pattern) c"
  shows "convert_file p w =
           (Ok True,
            w\<lparr>nodes := (nodes w)(p \<mapsto> File c' True),
              io := io w @ [Read p, Write p c'],
              out := out w @ file_msgs p c\<rparr>)"
proof -
  have "i \<in> set (occurrences import_pattern c)" using assms(3) by simp
  then have i: "i \<le> length c" "prefix import_pattern (drop i c)"
    by (simp_all add: set_occurrences)
  then have sub: "sublist import_pattern c" by (auto simp: sublist_iff_occurrence)
  have "take (i + length import_pattern) c = take i c @ import_pattern"
    using i by (auto simp: prefix_def take_add)
  then have "re_sub import_pattern replacement c = c'"
    using re_sub_single [OF import_pattern_nonempty assms(3), of replacement] assms(4)
    by (simp add: expand_replacement inserted_def)
  then have n: "new_content c = c'" using assms(2) by (simp add: new_content_def)
  from new_content_differs [OF assms(2) sub] n have "c' \<noteq> c" by simp
  with convert_file_text [OF assms(1)] n show ?thesis by simp
qed

text \<open>
  Claim C1, amended, on the example with one import line.
\<close>
theorem single_import_line_witness:
  "nodes (ex_world ex_plain) ex_path = Some (File ex_plain True) \<and>
   \<not> sublist marker ex_plain \<and>
   occurrences import_pattern ex_plain = [0] \<and>
   ex_done = take (0 + length import_pattern) ex_plain @ CHR 0x0A # retry_import @
               drop (0 + length import_pattern) ex_plain \<and>
   convert_file ex_path (ex_world ex_plain) =
     (Ok True,
      (ex_world ex_plain)\<lparr>nodes := (nodes (ex_world ex_plain))(ex_path \<mapsto> File ex_done True),
        io := io (ex_world ex_plain) @ [Read ex_path, Write ex_path ex_done],
        out := out (ex_world ex_plain) @ file_msgs ex_path ex_plain\<rparr>)"
proof -
  have h: "nodes (ex_world ex_plain) ex_path = Some (File ex_plain True)"
    by (simp add: ex_world_def)
  have m: "\<not> sublist marker ex_plain"
    by (simp add: ex_plain_def marker_def import_pattern_def sublist_code)
  have d: "ex_done = take (0 + length import_pattern) ex_plain @ CHR 0x0A # retry_import @
               drop (0 + length import_pattern) ex_plain"
    by (simp add: ex_done_def ex_plain_def inserted_def)
  from single_import_line [OF h m ex_plain_occurrences d] h m ex_plain_occurrences d
  show ?thesis by simp
qed

subsection \<open>C2: the count of \<^verbatim>\<open>Promise.race\<close>\<close>

text \<open>
  Claim C2, as it is stated, has the count reported also when it is zero. The line
  that carries the count is printed under the guard \<^verbatim>\<open>promise_race_count > 0\<close>: for a text
  without \<^verbatim>\<open>Promise.race\<close> no count is printed.
\<close>
theorem zero_count_counterexample:
  "length (occurrences promise_race ex_other) = 0 \<and>
   out (snd (convert_file ex_path (ex_world ex_other))) = [Converting ex_path, AddedImport] \<and>
   FoundPatterns 0 \<notin> set (out (snd (convert_file ex_path (ex_world ex_other))))"
proof -
  have h: "nodes (ex_world ex_other) ex_path = Some (File ex_other True)"
    by (simp add: ex_world_def)
  from ex_other_plain have n: "new_content ex_other = ex_other"
    using import_pattern_nonempty by (simp add: new_content_def re_sub_no_match)
  from convert_file_text [OF h]
  have "out (snd (convert_file ex_path (ex_world ex_other))) = [Converting ex_path, AddedImport]"
    using ex_other_plain by (simp add: n file_msgs_def ex_other_count ex_world_def)
  then show ?thesis by (simp add: ex_other_occurrences)
qed

text \<open>
  Claim C2, amended: for a readable file, the count that \<^verbatim>\<open>convert_file\<close> computes is the
  number \<open>n\<close> of occurrences of the literal \<^verbatim>\<open>Promise.race\<close> in the text of the file; the
  text after the import step has as many, and two occurrences never overlap, so \<open>n\<close> is
  the number of non-overlapping occurrences. The count is printed exactly when it is
  positive. Counting changes no file: what is stored afterwards is decided by the import
  step alone.
\<close>
theorem promise_race_report:
  assumes "nodes w p = Some (File c wr)"
    and "n = length (occurrences promise_race c)"
  shows "out (snd (convert_file p w)) =
           out w @ Converting p #
             (if \<not> sublist marker c then [AddedImport] else []) @
             (if 0 < n then [FoundPatterns n, ManualRecommended] else []) \<and>
         length (occurrences promise_race (new_content c)) = n \<and>
         (\<forall>i\<in>set (occurrences promise_race c). \<forall>j\<in>set (occurrences promise_race c).
             i < j \<longrightarrow> i + length promise_race \<le> j) \<and>
         nodes (snd (convert_file p w)) =
           (if new_content c \<noteq> c \<and> wr
            then (nodes w)(p \<mapsto> File (new_content c) True) else nodes w)"
proof (intro conjI ballI impI)
  have fc: "findall_count promise_race (new_content c) = n"
    by (simp add: promise_count_new_content assms(2))
  have fm: "file_msgs p c = Converting p #
             (if \<not> sublist marker c then [AddedImport] else []) @
             (if 0 < n then [FoundPatterns n, ManualRecommended] else [])"
    by (simp add: file_msgs_def fc)
  from convert_file_text [OF assms(1)]
  have "out (snd (convert_file p w)) = out w @ file_msgs p c" by simp
  then show "out (snd (convert_file p w)) =
           out w @ Converting p #
             (if \<not> sublist marker c then [AddedImport] else []) @
             (if 0 < n then [FoundPatterns n, ManualRecommended] else [])"
    by (simp only: fm)
  have "findall_count promise_race (new_content c) =
          length (occurrences promise_race (new_content c))"
    using findall_count_occ [OF unbordered_promise_race promise_race_nonempty]
    by (simp add: length_occurrences)
  with fc show "length (occurrences promise_race (new_content c)) = n" by simp
  from convert_file_text [OF assms(1)]
  show "nodes (snd (convert_file p w)) =
           (if new_content c \<noteq> c \<and> wr
            then (nodes w)(p \<mapsto> File (new_content c) True) else nodes w)"
    by simp
next
  fix i j
  assume "i \<in> set (occurrences promise_race c)" "j \<in> set (occurrences promise_race c)" "i < j"
  with unbordered_promise_race show "i + length promise_race \<le> j"
    by (rule occurrences_apart)
qed

text \<open>
  Claim C2, amended, on a text with two occurrences, at positions 0 and 17.
\<close>
theorem promise_race_report_witness:
  "nodes (ex_world ex_races) ex_path = Some (File ex_races True) \<and>
   (2::nat) = length (occurrences promise_race ex_races) \<and>
   occurrences promise_race ex_races = [0, 17] \<and>
   \<not> sublist marker ex_races \<and>
   out (snd (convert_file ex_path (ex_world ex_races))) =
     [Converting ex_path, AddedImport, FoundPatterns 2, ManualRecommended] \<and>
   length (occurrences promise_race (new_content ex_races)) = 2 \<and>
   ((0::nat) < 17 \<and> 0 + length promise_race \<le> 17) \<and>
   nodes (snd (convert_file ex_path (ex_world ex_races))) = nodes (ex_world ex_races)"
proof -
  have h: "nodes (ex_world ex_races) ex_path = Some (File ex_races True)"
    by (simp add: ex_world_def)
  have n: "(2::nat) = length (occurrences promise_race ex_races)"
    by (simp add: ex_races_occurrences)
  have m: "\<not> sublist marker ex_races" "\<not> sublist import_pattern ex_races"
    by (simp_all add: ex_races_def marker_def import_pattern_def sublist_code)
  then have nc: "new_content ex_races = ex_races"
    using import_pattern_nonempty by (simp add: new_content_def re_sub_no_match)
  have l: "length promise_race = 12" by (simp add: promise_race_def)
  from promise_race_report [OF h n] h n m nc
  show ?thesis by (simp add: ex_races_occurrences ex_world_def l)
qed

subsection \<open>C3: no write without a change\<close>

text \<open>
  Claim C3: when the text that \<^verbatim>\<open>convert_file\<close> ends with equals the text it read, no
  write happens (the only file operation is the read), the call returns False and the
  loop of \<^verbatim>\<open>main\<close> goes on with the same count. Whatever the file, a write that
  \<^verbatim>\<open>convert_file\<close> performs is a write of a changed text to the path it was called with.
\<close>
theorem unchanged_content_no_write:
  "(nodes w p = Some (File c wr) \<and> new_content c = c \<longrightarrow>
      fst (convert_file p w) = Ok False \<and>
      nodes (snd (convert_file p w)) = nodes w \<and>
      io (snd (convert_file p w)) = io w @ [Read p] \<and>
      convert_each (p # ps) n w = convert_each ps n (snd (convert_file p w))) \<and>
   (\<forall>q s. Write q s \<in> set (drop (length (io w)) (io (snd (convert_file p w)))) \<longrightarrow>
      q = p \<and> (\<exists>c'. nodes w p = Some (File c' True) \<and> s = new_content c' \<and> s \<noteq> c'))"
proof (intro conjI impI allI)
  assume a: "nodes w p = Some (File c wr) \<and> new_content c = c"
  then have cf: "convert_file p w =
      (Ok False, w\<lparr>io := io w @ [Read p], out := out w @ file_msgs p c\<rparr>)"
    using convert_file_text [of w p c wr] by simp
  show "fst (convert_file p w) = Ok False" by (simp add: cf)
  show "nodes (snd (convert_file p w)) = nodes w" by (simp add: cf)
  show "io (snd (convert_file p w)) = io w @ [Read p]" by (simp add: cf)
  show "convert_each (p # ps) n w = convert_each ps n (snd (convert_file p w))"
    by (simp add: cf)
next
  fix q s
  assume "Write q s \<in> set (drop (length (io w)) (io (snd (convert_file p w))))"
  then show "q = p" by (rule convert_file_writes [THEN conjunct1])
next
  fix q s
  assume "Write q s \<in> set (drop (length (io w)) (io (snd (convert_file p w))))"
  then show "\<exists>c'. nodes w p = Some (File c' True) \<and> s = new_content c' \<and> s \<noteq> c'"
    by (rule convert_file_writes [THEN conjunct2])
qed

text \<open>
  Claim C3 on a converted file (no write, count still 0) and on a file that needs the
  import (the one write is of a changed text).
\<close>
theorem unchanged_content_no_write_witness:
  "(nodes (ex_world ex_done) ex_path = Some (File ex_done True) \<and>
    new_content ex_done = ex_done \<and>
    fst (convert_file ex_path (ex_world ex_done)) = Ok False \<and>
    nodes (snd (convert_file ex_path (ex_world ex_done))) = nodes (ex_world ex_done) \<and>
    io (snd (convert_file ex_path (ex_world ex_done))) = [Read ex_path] \<and>
    convert_each [ex_path] 0 (ex_world ex_done) =
      (Ok 0, snd (convert_file ex_path (ex_world ex_done)))) \<and>
   (Write ex_path ex_done \<in>
      set (drop (length (io (ex_world ex_plain)))
             (io (snd (convert_file ex_path (ex_world ex_plain))))) \<and>
    nodes (ex_world ex_plain) ex_path = Some (File ex_plain True) \<and>
    ex_done = new_content ex_plain \<and> ex_done \<noteq> ex_plain)"
proof -
  have h: "nodes (ex_world ex_done) ex_path = Some (File ex_done True)"
    by (simp add: ex_world_def)
  have h2: "nodes (ex_world ex_plain) ex_path = Some (File ex_plain True)"
    by (simp add: ex_world_def)
  have wr: "Write ex_path ex_done \<in>
      set (drop (length (io (ex_world ex_plain)))
             (io (snd (convert_file ex_path (ex_world ex_plain)))))"
    by (simp add: ex_plain_run) (simp add: ex_world_def)
  from unchanged_content_no_write [of "ex_world ex_done" ex_path ex_done True "[]" 0]
    h ex_done_new
  have a: "fst (convert_file ex_path (ex_world ex_done)) = Ok False \<and>
    nodes (snd (convert_file ex_path (ex_world ex_done))) = nodes (ex_world ex_done) \<and>
    io (snd (convert_file ex_path (ex_world ex_done))) = [Read ex_path] \<and>
    convert_each [ex_path] 0 (ex_world ex_done) =
      (Ok 0, snd (convert_file ex_path (ex_world ex_done)))"
    by (simp add: ex_world_def)
  from unchanged_content_no_write [of "ex_world ex_plain" ex_path ex_plain True "[]" 0] wr
  have b: "\<exists>c'. nodes (ex_world ex_plain) ex_path = Some (File c' True) \<and>
             ex_done = new_content c' \<and> ex_done \<noteq> c'"
    by blast
  from a b h h2 ex_done_new show ?thesis by (auto simp: wr)
qed

subsection \<open>C4: a file with the marker is left alone\<close>

text \<open>
  Claim C4: for a readable file whose text contains the marker \<^verbatim>\<open>withRetry\<close>,
  \<^verbatim>\<open>convert_file\<close> returns False; the world afterwards differs from the one before only
  by the recorded read and the printed lines, none of which announces an added import.
  So every file, with its import section, is unchanged and nothing is written.
\<close>
theorem marker_present_unchanged:
  assumes "nodes w p = Some (File c wr)" and "sublist marker c"
  shows "convert_file p w =
           (Ok False,
            w\<lparr>io := io w @ [Read p],
              out := out w @ Converting p #
                (if 0 < findall_count promise_race c
                 then [FoundPatterns (findall_count promise_race c), ManualRecommended]
                 else [])\<rparr>)"
  using assms(2) convert_file_text [OF assms(1)]
  by (simp add: new_content_def file_msgs_def)

text \<open>
  Claim C4 on the converted example text.
\<close>
theorem marker_present_unchanged_witness:
  "nodes (ex_world ex_done) ex_path = Some (File ex_done True) \<and> sublist marker ex_done \<and>
   convert_file ex_path (ex_world ex_done) =
     (Ok False,
      \<lparr>nodes = [ex_path \<mapsto> File ex_done True], io = [Read ex_path],
       out = [Converting ex_path, FoundPatterns 1, ManualRecommended]\<rparr>)"
proof -
  have h: "nodes (ex_world ex_done) ex_path = Some (File ex_done True)"
    by (simp add: ex_world_def)
  from marker_present_unchanged [OF h ex_done_marker] h ex_done_marker show ?thesis
    by (simp add: ex_done_count ex_world_def)
qed

subsection \<open>C5: the exit status\<close>

text \<open>
  Claim C5, as it is stated, promises exit status 0 whenever the directory exists. The
  script handles no exception: a \<^verbatim>\<open>.ts\<close> entry that cannot be read ends the run with an
  uncaught exception and a status that is not 0.
\<close>
theorem exit_status_counterexample:
  "exists services_dir ex_opaque \<and>
   fst (main ex_opaque) = Uncaught (ReadFault ''services/supabase/a.ts'') \<and>
   exit_status (fst (main ex_opaque)) \<noteq> 0"
  by (simp add: ex_opaque_main exists_def ex_opaque_dir)

text \<open>
  Claim C5, amended: when \<^verbatim>\<open>services/supabase\<close> does not exist, \<^verbatim>\<open>main\<close> prints the error
  line that names this path and exits with status 1, and nothing else happens (no read,
  no write). When it exists and every matched entry is a readable text file that is
  writable or needs no change, \<^verbatim>\<open>main\<close> returns normally, status 0. When it exists and
  some matched entry cannot be read, or needs a change and may not be written, the run
  ends with an uncaught exception, status 1: the read fault of an entry that cannot be
  read or the write fault of one that may not be written. With the directory present
  the run never ends otherwise than by returning or by an uncaught exception.
\<close>
theorem missing_directory_exit:
  "(\<not> exists services_dir w \<longrightarrow>
      main w = (SysExit 1, w\<lparr>out := out w @ [ErrorNotFound services_dir]\<rparr>) \<and>
      exit_status (fst (main w)) = 1) \<and>
   (exists services_dir w \<and>
    (\<forall>p\<in>set (glob_ts services_dir w).
        \<exists>c wr. nodes w p = Some (File c wr) \<and> (wr \<or> new_content c = c)) \<longrightarrow>
      fst (main w) = Returned \<and> exit_status (fst (main w)) = 0) \<and>
   (exists services_dir w \<and>
    (\<exists>p\<in>set (glob_ts services_dir w).
        (\<forall>c wr. nodes w p \<noteq> Some (File c wr)) \<or>
        (\<exists>c. nodes w p = Some (File c False) \<and> new_content c \<noteq> c)) \<longrightarrow>
      (\<exists>p\<in>set (glob_ts services_dir w).
         ((\<forall>c wr. nodes w p \<noteq> Some (File c wr)) \<and>
            fst (main w) = Uncaught (ReadFault p)) \<or>
         ((\<exists>c. nodes w p = Some (File c False) \<and> new_content c \<noteq> c) \<and>
            fst (main w) = Uncaught (WriteFault p))) \<and>
      exit_status (fst (main w)) = 1) \<and>
   (exists services_dir w \<and> fst (main w) \<noteq> Returned \<longrightarrow>
      (\<exists>e. fst (main w) = Uncaught e) \<and> exit_status (fst (main w)) = 1)"
proof (intro conjI impI)
  assume "\<not> exists services_dir w"
  then show "main w = (SysExit 1, w\<lparr>out := out w @ [ErrorNotFound services_dir]\<rparr>)"
    by (simp add: main_def print_def)
  then show "exit_status (fst (main w)) = 1" by simp
next
  assume a: "exists services_dir w \<and>
    (\<forall>p\<in>set (glob_ts services_dir w).
        \<exists>c wr. nodes w p = Some (File c wr) \<and> (wr \<or> new_content c = c))"
  then show "fst (main w) = Returned" using main_completes by blast
  then show "exit_status (fst (main w)) = 0" by simp
next
  assume a: "exists services_dir w \<and>
    (\<exists>p\<in>set (glob_ts services_dir w).
        (\<forall>c wr. nodes w p \<noteq> Some (File c wr)) \<or>
        (\<exists>c. nodes w p = Some (File c False) \<and> new_content c \<noteq> c))"
  then show r: "\<exists>p\<in>set (glob_ts services_dir w).
         ((\<forall>c wr. nodes w p \<noteq> Some (File c wr)) \<and>
            fst (main w) = Uncaught (ReadFault p)) \<or>
         ((\<exists>c. nodes w p = Some (File c False) \<and> new_content c \<noteq> c) \<and>
            fst (main w) = Uncaught (WriteFault p))"
    using main_raises [of w] by blast
  then obtain e where "fst (main w) = Uncaught e" by blast
  then show "exit_status (fst (main w)) = 1" by simp
next
  assume a: "exists services_dir w \<and> fst (main w) \<noteq> Returned"
  then show "\<exists>e. fst (main w) = Uncaught e" using main_outcomes by blast
  then show "exit_status (fst (main w)) = 1" by auto
qed

text \<open>
  Claim C5, amended, on a world without the directory, on the directory with two
  readable files, on the directory with an unreadable entry (a read fault) and on the
  directory with a read-only file that needs the import (a write fault).
\<close>
theorem missing_directory_exit_witness:
  "(\<not> exists services_dir ex_nodir \<and>
    main ex_nodir = (SysExit 1, ex_nodir\<lparr>out := [ErrorNotFound services_dir]\<rparr>) \<and>
    io (snd (main ex_nodir)) = [] \<and>
    exit_status (fst (main ex_nodir)) = 1) \<and>
   (exists services_dir ex_fs \<and>
    glob_ts services_dir ex_fs = [''services/supabase/a.ts'', ''services/supabase/b.ts''] \<and>
    nodes ex_fs ''services/supabase/a.ts'' = Some (File ex_plain True) \<and>
    nodes ex_fs ''services/supabase/b.ts'' = Some (File ex_done True) \<and>
    fst (main ex_fs) = Returned \<and> exit_status (fst (main ex_fs)) = 0) \<and>
   (exists services_dir ex_opaque \<and>
    glob_ts services_dir ex_opaque = [''services/supabase/a.ts''] \<and>
    nodes ex_opaque ''services/supabase/a.ts'' = Some Opaque \<and>
    fst (main ex_opaque) = Uncaught (ReadFault ''services/supabase/a.ts'') \<and>
    fst (main ex_opaque) \<noteq> Returned \<and>
    exit_status (fst (main ex_opaque)) = 1) \<and>
   (exists services_dir ex_readonly \<and>
    glob_ts services_dir ex_readonly = [''services/supabase/a.ts''] \<and>
    nodes ex_readonly ''services/supabase/a.ts'' = Some (File ex_plain False) \<and>
    new_content ex_plain \<noteq> ex_plain \<and>
    fst (main ex_readonly) = Uncaught (WriteFault ''services/supabase/a.ts'') \<and>
    exit_status (fst (main ex_readonly)) = 1)"
proof -
  have n: "\<not> exists services_dir ex_nodir" by (simp add: exists_def ex_nodir_def)
  have o: "out ex_nodir = []" "io ex_nodir = []" by (simp_all add: ex_nodir_def)
  have a: "main ex_nodir = (SysExit 1, ex_nodir\<lparr>out := [ErrorNotFound services_dir]\<rparr>) \<and>
    exit_status (fst (main ex_nodir)) = 1"
    using missing_directory_exit [of ex_nodir] n by (simp add: o)
  have e: "exists services_dir ex_fs" by (simp add: exists_def ex_fs_dir)
  have g: "\<forall>p\<in>set (glob_ts services_dir ex_fs).
          \<exists>c wr. nodes ex_fs p = Some (File c wr) \<and> (wr \<or> new_content c = c)"
    by (auto simp: ex_fs_glob ex_fs_a ex_fs_b)
  have b: "fst (main ex_fs) = Returned \<and> exit_status (fst (main ex_fs)) = 0"
    using missing_directory_exit [of ex_fs] e g by blast
  have e2: "exists services_dir ex_opaque" by (simp add: exists_def ex_opaque_dir)
  have bad2: "\<exists>p\<in>set (glob_ts services_dir ex_opaque).
        (\<forall>c wr. nodes ex_opaque p \<noteq> Some (File c wr)) \<or>
        (\<exists>c. nodes ex_opaque p = Some (File c False) \<and> new_content c \<noteq> c)"
    by (simp add: ex_opaque_glob ex_opaque_a)
  from missing_directory_exit [of ex_opaque] e2 bad2
  have "(\<exists>p\<in>set (glob_ts services_dir ex_opaque).
         ((\<forall>c wr. nodes ex_opaque p \<noteq> Some (File c wr)) \<and>
            fst (main ex_opaque) = Uncaught (ReadFault p)) \<or>
         ((\<exists>c. nodes ex_opaque p = Some (File c False) \<and> new_content c \<noteq> c) \<and>
            fst (main ex_opaque) = Uncaught (WriteFault p))) \<and>
      exit_status (fst (main ex_opaque)) = 1"
    by blast
  then have c: "fst (main ex_opaque) = Uncaught (ReadFault ''services/supabase/a.ts'') \<and>
      exit_status (fst (main ex_opaque)) = 1"
    by (auto simp: ex_opaque_glob ex_opaque_a)
  have e3: "exists services_dir ex_readonly" by (simp add: exists_def ex_readonly_dir)
  have ch: "new_content ex_plain \<noteq> ex_plain"
    by (simp add: ex_plain_new ex_plain_changes)
  have bad3: "\<exists>p\<in>set (glob_ts services_dir ex_readonly).
        (\<forall>c wr. nodes ex_readonly p \<noteq> Some (File c wr)) \<or>
        (\<exists>c. nodes ex_readonly p = Some (File c False) \<and> new_content c \<noteq> c)"
    by (simp add: ex_readonly_glob ex_readonly_a ch)
  from missing_directory_exit [of ex_readonly] e3 bad3
  have "(\<exists>p\<in>set (glob_ts services_dir ex_readonly).
         ((\<forall>c wr. nodes ex_readonly p \<noteq> Some (File c wr)) \<and>
            fst (main ex_readonly) = Uncaught (ReadFault p)) \<or>
         ((\<exists>c. nodes ex_readonly p = Some (File c False) \<and> new_content c \<noteq> c) \<and>
            fst (main ex_readonly) = Uncaught (WriteFault p))) \<and>
      exit_status (fst (main ex_readonly)) = 1"
    by blast
  then have d: "fst (main ex_readonly) = Uncaught (WriteFault ''services/supabase/a.ts'') \<and>
      exit_status (fst (main ex_readonly)) = 1"
    by (auto simp: ex_readonly_glob ex_readonly_a)
  from a b c d n e e2 e3 ch ex_fs_glob ex_fs_a ex_fs_b ex_opaque_glob ex_opaque_a
    ex_readonly_glob ex_readonly_a
  show ?thesis by (simp add: o)
qed

subsection \<open>C6: the batch and its summary\<close>

text \<open>
  Claim C6: let \<^verbatim>\<open>services/supabase\<close> be a directory with the (distinct) entry names
  \<open>names\<close>, and let the run return normally. Then the files processed are exactly the
  entries of the directory itself whose name ends in \<^verbatim>\<open>.ts\<close>, in the listed order:
  \<^verbatim>\<open>convert_file\<close> is called on each of them once (its lines and its file operations
  appear in that order, and nothing else does); the summary starts with the number of
  these files and ends with the number of those for which \<^verbatim>\<open>convert_file\<close> returns
  True.
\<close>
theorem batch_summary:
  assumes "nodes w services_dir = Some (Dir names)"
    and "distinct names"
    and "fst (main w) = Returned"
    and "ts_files = map (\<lambda>n. services_dir @ ''/'' @ n) (filter (suffix ''.ts'') names)"
  shows "glob_ts services_dir w = ts_files \<and>
         out (snd (main w)) =
           out w @ FoundFiles (length ts_files) #
             concat (map (\<lambda>p. file_msgs p (text_of w p)) ts_files) @
             [Updated (length (filter (\<lambda>p. fst (convert_file p w) = Ok True) ts_files)),
              NextSteps, SeeExamples] \<and>
         io (snd (main w)) =
           io w @ concat (map (\<lambda>p. Read p #
                    (if fst (convert_file p w) = Ok True
                     then [Write p (new_content (text_of w p))] else [])) ts_files)"
proof -
  have g: "glob_ts services_dir w = ts_files"
    using assms(1,4) by (simp add: glob_ts_def)
  have d: "distinct ts_files" using distinct_glob_ts [OF assms(1,2)] g by simp
  have e: "exists services_dir w" using assms(1) by (simp add: exists_def)
  let ?w1 = "print (FoundFiles (length ts_files)) w"
  obtain r w2 where ce: "convert_each ts_files 0 ?w1 = (r, w2)"
    by (cases "convert_each ts_files 0 ?w1")
  with assms(3) e g obtain k where r: "r = Ok k"
    by (cases r) (auto simp: main_def Let_def)
  have n1: "nodes ?w1 = nodes w" by (simp add: print_def)
  have same: "fst (convert_file p ?w1) = fst (convert_file p w)" for p
    by (rule convert_file_fst_cong) (simp add: n1)
  have t: "text_of ?w1 p = text_of w p" for p
    by (rule text_of_cong) (simp add: n1)
  from convert_each_summary [OF d ce [unfolded r]]
  have k: "k = length (filter (\<lambda>p. fst (convert_file p w) = Ok True) ts_files)"
    and o: "out w2 = out w @ FoundFiles (length ts_files) #
              concat (map (\<lambda>p. file_msgs p (text_of w p)) ts_files)"
    and i: "io w2 = io w @ concat (map (\<lambda>p. Read p #
                    (if fst (convert_file p w) = Ok True
                     then [Write p (new_content (text_of w p))] else [])) ts_files)"
    by (simp_all add: same t cong del: if_weak_cong) (simp_all add: print_def)
  have m: "main w = (Returned, print SeeExamples (print NextSteps (print (Updated k) w2)))"
    using e g ce r by (simp add: main_def Let_def)
  show ?thesis using g k o i by (simp add: m print_def)
qed

text \<open>
  Claim C6 on a directory with two \<^verbatim>\<open>.ts\<close> files (one needs the import), one other file
  and a subdirectory that holds a \<^verbatim>\<open>.ts\<close> file.
\<close>
theorem batch_summary_witness:
  "nodes ex_fs services_dir = Some (Dir [''a.ts'', ''b.ts'', ''notes.md'', ''sub'']) \<and>
   distinct [''a.ts'', ''b.ts'', ''notes.md'', ''sub''] \<and>
   fst (main ex_fs) = Returned \<and>
   glob_ts services_dir ex_fs = [''services/supabase/a.ts'', ''services/supabase/b.ts''] \<and>
   out (snd (main ex_fs)) =
     [FoundFiles 2,
      Converting ''services/supabase/a.ts'', AddedImport, FoundPatterns 1, ManualRecommended,
      Converting ''services/supabase/b.ts'', FoundPatterns 1, ManualRecommended,
      Updated 1, NextSteps, SeeExamples] \<and>
   io (snd (main ex_fs)) =
     [Read ''services/supabase/a.ts'', Write ''services/supabase/a.ts'' ex_done,
      Read ''services/supabase/b.ts'']"
proof -
  have d: "distinct [''a.ts'', ''b.ts'', ''notes.md'', ''sub'']" by simp
  have t: "[''services/supabase/a.ts'', ''services/supabase/b.ts''] =
      map (\<lambda>n. services_dir @ ''/'' @ n)
        (filter (suffix ''.ts'') [''a.ts'', ''b.ts'', ''notes.md'', ''sub''])"
    by (simp add: suffix_to_prefix services_dir_def)
  have o: "out ex_fs = []" and i: "io ex_fs = []" by (simp_all add: ex_fs_def)
  have ta: "text_of ex_fs ''services/supabase/a.ts'' = ex_plain"
    and tb: "text_of ex_fs ''services/supabase/b.ts'' = ex_done"
    by (simp_all add: text_of_def ex_fs_a ex_fs_b)
  from batch_summary [OF ex_fs_dir d ex_fs_returns t] ex_fs_dir d ex_fs_returns
  show ?thesis
    by (simp add: o i ta tb ex_plain_msgs ex_done_msgs ex_fs_a_result ex_fs_b_result
        ex_plain_new)
qed

subsection \<open>C7: a directory without \<^verbatim>\<open>.ts\<close> files\<close>

text \<open>
  Claim C7: when the directory exists and none of its entries ends in \<^verbatim>\<open>.ts\<close>,
  \<^verbatim>\<open>main\<close> reports zero files found and zero files updated, touches no file and returns
  normally, with status 0.
\<close>
theorem no_ts_files:
  assumes "nodes w services_dir = Some (Dir names)"
    and "list_all (\<lambda>n. \<not> suffix ''.ts'' n) names"
  shows "main w =
           (Returned, w\<lparr>out := out w @ [FoundFiles 0, Updated 0, NextSteps, SeeExamples]\<rparr>) \<and>
         exit_status (fst (main w)) = 0"
proof -
  have "filter (suffix ''.ts'') names = []"
    using assms(2) by (simp add: list_all_iff filter_empty_conv)
  then have g: "glob_ts services_dir w = []" using assms(1) by (simp add: glob_ts_def)
  have e: "exists services_dir w" using assms(1) by (simp add: exists_def)
  from g e show ?thesis by (simp add: main_def print_def)
qed

text \<open>
  Claim C7 on a directory that holds a markdown file and a subdirectory.
\<close>
theorem no_ts_files_witness:
  "nodes ex_no_ts services_dir = Some (Dir [''notes.md'', ''sub'']) \<and>
   list_all (\<lambda>n. \<not> suffix ''.ts'' n) [''notes.md'', ''sub''] \<and>
   main ex_no_ts =
     (Returned, ex_no_ts\<lparr>out := [FoundFiles 0, Updated 0, NextSteps, SeeExamples]\<rparr>) \<and>
   exit_status (fst (main ex_no_ts)) = 0"
proof -
  have l: "list_all (\<lambda>n. \<not> suffix ''.ts'' n) [''notes.md'', ''sub'']"
    by (simp add: suffix_to_prefix)
  have o: "out ex_no_ts = []" by (simp add: ex_no_ts_def)
  from no_ts_files [OF ex_no_ts_dir l] ex_no_ts_dir l show ?thesis by (simp add: o)
qed

subsection \<open>C8: idempotence\<close>

text \<open>
  Claim C8: the text transformation of \<^verbatim>\<open>convert_file\<close> is idempotent, and after a call
  that returned, the file holds the transformed text and a second call returns False,
  changes no file and only reads.
\<close>
theorem convert_file_idempotent:
  "new_content (new_content c) = new_content c \<and>
   (nodes w p = Some (File c wr) \<and> convert_file p w = (Ok b, w1) \<longrightarrow>
      nodes w1 p = Some (File (new_content c) wr) \<and>
      fst (convert_file p w1) = Ok False \<and>
      nodes (snd (convert_file p w1)) = nodes w1 \<and>
      io (snd (convert_file p w1)) = io w1 @ [Read p])"
proof (intro conjI impI)
  show "new_content (new_content c) = new_content c" by (rule new_content_idem)
next
  assume a: "nodes w p = Some (File c wr) \<and> convert_file p w = (Ok b, w1)"
  then have f: "nodes w p = Some (File c wr)" and r: "convert_file p w = (Ok b, w1)"
    by simp_all
  from r convert_file_text [OF f]
  have n1: "nodes w1 p = Some (File (new_content c) wr)"
    by (auto simp: f split: if_splits)
  from convert_file_text [OF n1] new_content_idem [of c]
  have cf: "convert_file p w1 =
      (Ok False, w1\<lparr>io := io w1 @ [Read p], out := out w1 @ file_msgs p (new_content c)\<rparr>)"
    by simp
  show "nodes w1 p = Some (File (new_content c) wr)" by (rule n1)
  show "fst (convert_file p w1) = Ok False" by (simp add: cf)
  show "nodes (snd (convert_file p w1)) = nodes w1" by (simp add: cf)
  show "io (snd (convert_file p w1)) = io w1 @ [Read p]" by (simp add: cf)
qed

text \<open>
  Claim C8 on the example with one import line: the first call writes, the second does
  not.
\<close>
theorem convert_file_idempotent_witness:
  "new_content (new_content ex_plain) = new_content ex_plain \<and>
   nodes (ex_world ex_plain) ex_path = Some (File ex_plain True) \<and>
   convert_file ex_path (ex_world ex_plain) =
     (Ok True,
      \<lparr>nodes = [ex_path \<mapsto> File ex_done True],
       io = [Read ex_path, Write ex_path ex_done],
       out = [Converting ex_path, AddedImport, FoundPatterns 1, ManualRecommended]\<rparr>) \<and>
   fst (convert_file ex_path
     \<lparr>nodes = [ex_path \<mapsto> File ex_done True],
      io = [Read ex_path, Write ex_path ex_done],
      out = [Converting ex_path, AddedImport, FoundPatterns 1, ManualRecommended]\<rparr>) = Ok False \<and>
   io (snd (convert_file ex_path
     \<lparr>nodes = [ex_path \<mapsto> File ex_done True],
      io = [Read ex_path, Write ex_path ex_done],
      out = [Converting ex_path, AddedImport, FoundPatterns 1, ManualRecommended]\<rparr>)) =
     [Read ex_path, Write ex_path ex_done, Read ex_path]"
proof -
  let ?w1 = "\<lparr>nodes = [ex_path \<mapsto> File ex_done True],
        io = [Read ex_path, Write ex_path ex_done],
        out = [Converting ex_path, AddedImport, FoundPatterns 1, ManualRecommended]\<rparr>"
  have h: "nodes (ex_world ex_plain) ex_path = Some (File ex_plain True)"
    by (simp add: ex_world_def)
  note th = convert_file_idempotent [of ex_plain "ex_world ex_plain" ex_path True True ?w1]
  from th have i1: "new_content (new_content ex_plain) = new_content ex_plain"
    by (rule conjunct1)
  from th h ex_plain_run
  have i2: "fst (convert_file ex_path ?w1) = Ok False \<and>
            io (snd (convert_file ex_path ?w1)) = io ?w1 @ [Read ex_path]"
    by blast
  from i1 i2 h ex_plain_run show ?thesis by simp
qed

subsection \<open>C9: neither marker nor import line\<close>

text \<open>
  Claim C9: for a readable file whose text contains neither the marker nor the import
  line, \<^verbatim>\<open>convert_file\<close> returns False and writes nothing (the world changes only by the
  recorded read and the printed lines), and yet it prints the line that announces the
  added import.
\<close>
theorem no_import_line_unchanged:
  assumes "nodes w p = Some (File c wr)"
    and "\<not> sublist marker c" and "\<not> sublist import_pattern c"
  shows "convert_file p w =
           (Ok False,
            w\<lparr>io := io w @ [Read p],
              out := out w @ Converting p # AddedImport #
                (if 0 < findall_count promise_race c
                 then [FoundPatterns (findall_count promise_race c), ManualRecommended]
                 else [])\<rparr>)"
proof -
  have "re_sub import_pattern replacement c = c"
    using import_pattern_nonempty assms(3) by (rule re_sub_no_match)
  with assms(2) have "new_content c = c" by (simp add: new_content_def)
  with assms(2) convert_file_text [OF assms(1)] show ?thesis
    by (simp add: file_msgs_def)
qed

text \<open>
  Claim C9 on the example text without marker and import line.
\<close>
theorem no_import_line_unchanged_witness:
  "nodes (ex_world ex_other) ex_path = Some (File ex_other True) \<and>
   \<not> sublist marker ex_other \<and> \<not> sublist import_pattern ex_other \<and>
   convert_file ex_path (ex_world ex_other) =
     (Ok False,
      \<lparr>nodes = [ex_path \<mapsto> File ex_other True], io = [Read ex_path],
       out = [Converting ex_path, AddedImport]\<rparr>)"
proof -
  have h: "nodes (ex_world ex_other) ex_path = Some (File ex_other True)"
    by (simp add: ex_world_def)
  from ex_other_plain have m: "\<not> sublist marker ex_other"
    and i: "\<not> sublist import_pattern ex_other" by simp_all
  from no_import_line_unchanged [OF h m i] h m i show ?thesis
    by (simp add: ex_other_count ex_world_def)
qed

subsection \<open>C10: one new line behind every import line\<close>

text \<open>
  Claim C10: let the text of a readable and writable file lack the marker and contain
  \<open>N \<ge> 1\<close> occurrences of the import line. Split at the import line, the text consists
  of \<open>N + 1\<close> segments free of the import line, joined by the import line. The
  substitution yields the same segments joined by the import line followed by the new
  line: the new line stands behind every one of the \<open>N\<close> occurrences, the text grows by
  \<open>N\<close> times the length of the inserted line, and \<^verbatim>\<open>convert_file\<close> writes this text.
\<close>
theorem every_import_line:
  assumes "nodes w p = Some (File c True)"
    and "\<not> sublist marker c"
    and "N = length (occurrences import_pattern c)"
    and "1 \<le> N"
    and "segs = split_on import_pattern c"
    and "c' = join (import_pattern @ CHR 0x0A # retry_import) segs"
  shows "c = join import_pattern segs \<and>
         length segs = N + 1 \<and>
         (\<forall>s\<in>set segs. \<not> sublist import_pattern s) \<and>
         re_sub import_pattern replacement c = c' \<and>
         length c' = length c + N * length (CHR 0x0A # retry_import) \<and>
         convert_file p w =
           (Ok True,
            w\<lparr>nodes := (nodes w)(p \<mapsto> File c' True),
              io := io w @ [Read p, Write p c'],
              out := out w @ file_msgs p c\<rparr>)"
proof -
  have j: "c = join import_pattern segs"
    by (simp add: assms(5) join_split_on [OF import_pattern_nonempty])
  have n: "length segs = N + 1"
    using length_split_on [OF unbordered_import_pattern import_pattern_nonempty, of c]
    by (simp add: assms(3,5))
  have f: "\<forall>s\<in>set segs. \<not> sublist import_pattern s"
    unfolding assms(5) by (rule split_on_free [OF import_pattern_nonempty])
  have ne: "segs \<noteq> []" using n by auto
  have "re_sub import_pattern replacement (join import_pattern segs) =
          join (expand replacement import_pattern) segs"
    using unbordered_import_pattern import_pattern_nonempty f by (rule re_sub_join)
  then have r: "re_sub import_pattern replacement c = c'"
    using j by (simp add: assms(6) expand_replacement inserted_def)
  have "length c' = sum_list (map length segs) + N * length (import_pattern @ CHR 0x0A # retry_import)"
    using length_join [OF ne, of "import_pattern @ CHR 0x0A # retry_import"] n
    by (simp add: assms(6))
  moreover have "length c = sum_list (map length segs) + N * length import_pattern"
    using length_join [OF ne, of import_pattern] n j by simp
  ultimately
  have l: "length c' = length c + N * length (CHR 0x0A # retry_import)"
    by (simp add: distrib_left)
  have "0 < occ_count import_pattern c"
    using assms(3,4) by (simp add: length_occurrences)
  then have "sublist import_pattern c"
    using occ_count_zero [OF import_pattern_nonempty, of c] by auto
  from new_content_differs [OF assms(2) this] r assms(2)
  have d: "new_content c = c'" "c' \<noteq> c" by (simp_all add: new_content_def)
  from convert_file_text [OF assms(1)] d j n f r l show ?thesis by simp
qed

text \<open>
  Claim C10 on the text with two import lines.
\<close>
theorem every_import_line_witness:
  "nodes (ex_world ex_twice) ex_path = Some (File ex_twice True) \<and>
   \<not> sublist marker ex_twice \<and>
   (2::nat) = length (occurrences import_pattern ex_twice) \<and>
   occurrences import_pattern ex_twice = [0, 50] \<and>
   split_on import_pattern ex_twice = ['''', ''\<newline>'', ''\<newline>''] \<and>
   ex_twice_done = join (import_pattern @ CHR 0x0A # retry_import) ['''', ''\<newline>'', ''\<newline>''] \<and>
   ex_twice = join import_pattern ['''', ''\<newline>'', ''\<newline>''] \<and>
   re_sub import_pattern replacement ex_twice = ex_twice_done \<and>
   length ex_twice_done = length ex_twice + 2 * length (CHR 0x0A # retry_import) \<and>
   fst (convert_file ex_path (ex_world ex_twice)) = Ok True \<and>
   nodes (snd (convert_file ex_path (ex_world ex_twice))) ex_path =
     Some (File ex_twice_done True)"
proof -
  have h: "nodes (ex_world ex_twice) ex_path = Some (File ex_twice True)"
    by (simp add: ex_world_def)
  have n: "(2::nat) = length (occurrences import_pattern ex_twice)"
    by (simp add: ex_twice_occurrences)
  have l: "(1::nat) \<le> 2" by simp
  have s: "['''', ''\<newline>'', ''\<newline>''] = split_on import_pattern ex_twice"
    by (simp add: ex_twice_split)
  have d: "ex_twice_done =
      join (import_pattern @ CHR 0x0A # retry_import) ['''', ''\<newline>'', ''\<newline>'']"
    by (simp add: ex_twice_done_def inserted_def)
  from every_import_line [OF h ex_twice_plain n l s d]
    h ex_twice_plain n ex_twice_occurrences ex_twice_split d
  show ?thesis by simp
qed

end
